theory Spec2Isabelle
  imports Main "HOL-Library.Word" "HOL-Library.Multiset"
begin

unbundle bit_operations_syntax

section \<open>Data model\<close>

text \<open>
  Go's fixed-width integers are machine words: \<open>int32\<close>, \<open>uint32\<close> and \<open>int64\<close> wrap
  around, signed comparison reads them through \<open>sint\<close>.  A Go string is a byte
  sequence, so a path is a list of bytes.  \<open>time.Time\<close> is kept as whole seconds since
  the epoch (what \<open>Unix()\<close> returns) and the sub-second remainder.
\<close>

type_synonym byte = "8 word"
type_synonym int32 = "32 word"
type_synonym uint32 = "32 word"
type_synonym int64 = "64 word"
type_synonym path = "byte list"

record Time =
  t_sec :: int64
  t_nsec :: nat

definition time_Unix :: "int64 \<Rightarrow> nat \<Rightarrow> Time" where
  "time_Unix s n = \<lparr>t_sec = s, t_nsec = n\<rparr>"

record FileInfo =
  fi_Path :: path
  fi_Size :: int64
  fi_ModTime :: Time
  fi_Mode :: uint32
  fi_IsDir :: bool

record FileMetadata =
  fm_Path :: path
  fm_Size :: int64
  fm_ModTime :: Time
  fm_Checksum :: "byte list"
  fm_Offset :: int64
  fm_BlockID :: int32
  fm_Mode :: uint32

record Block =
  blk_ID :: int32
  blk_Files :: "FileMetadata list"
  blk_Size :: int64

text \<open>
  The file system the packer reads: a regular file has its bytes, its mode and its
  modification time; a path that cannot be opened is absent.
\<close>

record regfile =
  f_data :: "byte list"
  f_mode :: uint32
  f_mtime :: Time

type_synonym filesystem = "path \<rightharpoonup> regfile"

datatype error =
    OpenError path
  | StatError path
  | NoFilesFound
  | EOF
  | ErrUnexpectedEOF
  | MakeslicePanic
  | OutOfMemory
  | SeekError
  | MkdirError path
  | CreateError path
  | ChtimesError path
  | ChecksumMismatch path
  | BlockIntegrityError int32 "byte list" "byte list"

text \<open>
  \<open>crypto/sha256\<close> is not part of the repository; the digest function is a parameter
  \<open>H\<close> of every operation that hashes.
\<close>

type_synonym digest = "byte list \<Rightarrow> byte list"

section \<open>Little-endian encoding (\<open>encoding/binary\<close>)\<close>

fun le_bytes :: "nat \<Rightarrow> 'a::len word \<Rightarrow> byte list" where
  "le_bytes 0 w = []"
| "le_bytes (Suc n) w = ucast w # le_bytes n (drop_bit 8 w)"

fun le_word :: "byte list \<Rightarrow> 'a::len word" where
  "le_word [] = 0"
| "le_word (b # bs) = ucast b OR push_bit 8 (le_word bs)"

definition le32 :: "32 word \<Rightarrow> byte list" where
  "le32 w = le_bytes 4 w"

definition le64 :: "64 word \<Rightarrow> byte list" where
  "le64 w = le_bytes 8 w"

section \<open>Block encoding\<close>

definition addFileToBlock :: "filesystem \<Rightarrow> digest \<Rightarrow> Block \<Rightarrow> FileInfo \<Rightarrow> error + Block" where
  "addFileToBlock fs H block file =
     (case fs (fi_Path file) of
        None \<Rightarrow> Inl (OpenError (fi_Path file))
      | Some f \<Rightarrow>
          let metaData = \<lparr>fm_Path = fi_Path file, fm_Size = fi_Size file,
                           fm_ModTime = fi_ModTime file, fm_Checksum = H (f_data f),
                           fm_Offset = blk_Size block, fm_BlockID = blk_ID block,
                           fm_Mode = fi_Mode file\<rparr>
          in Inr (block\<lparr>blk_Files := blk_Files block @ [metaData],
                        blk_Size := blk_Size block + fi_Size file\<rparr>))"

definition writeMetadata :: "FileMetadata \<Rightarrow> byte list" where
  "writeMetadata m =
     le32 (of_nat (length (fm_Path m))) @ fm_Path m @ le64 (fm_Size m) @
     le64 (t_sec (fm_ModTime m)) @ le64 (fm_Offset m) @ le32 (fm_Mode m) @ fm_Checksum m"

text \<open>The second loop of \<open>writeBlock\<close>: every file is opened again and copied whole.\<close>

fun writeContents :: "filesystem \<Rightarrow> FileMetadata list \<Rightarrow> error + byte list" where
  "writeContents fs [] = Inr []"
| "writeContents fs (m # ms) =
     (case fs (fm_Path m) of
        None \<Rightarrow> Inl (OpenError (fm_Path m))
      | Some f \<Rightarrow>
          (case writeContents fs ms of
             Inl e \<Rightarrow> Inl e
           | Inr rest \<Rightarrow> Inr (f_data f @ rest)))"

definition blockHeader :: "Block \<Rightarrow> int32 \<Rightarrow> byte list" where
  "blockHeader block blockNum =
     le32 blockNum @ le32 (of_nat (length (blk_Files block))) @
     concat (map writeMetadata (blk_Files block))"

definition writeBlock :: "filesystem \<Rightarrow> digest \<Rightarrow> Block \<Rightarrow> int32 \<Rightarrow> error + byte list" where
  "writeBlock fs H block blockNum =
     (case writeContents fs (blk_Files block) of
        Inl e \<Rightarrow> Inl e
      | Inr payload \<Rightarrow>
          let body = blockHeader block blockNum @ payload
          in Inr (body @ H body))"

section \<open>The packer\<close>

record written =
  w_num :: int32
  w_block :: Block
  w_bytes :: "byte list"

definition newBlock :: "int32 \<Rightarrow> Block" where
  "newBlock blockNum = \<lparr>blk_ID = blockNum, blk_Files = [], blk_Size = 0\<rparr>"

text \<open>
  The first half of the loop body of \<open>packFiles\<close>: if the file does not fit in the
  open block, the open block is written and a new one is started.  The loop state is
  the block number, the open block, the running size and the block files written so
  far.
\<close>

type_synonym packState = "int32 \<times> Block \<times> int64 \<times> written list"

definition startNewIfFull :: "filesystem \<Rightarrow> digest \<Rightarrow> int64 \<Rightarrow> FileInfo \<Rightarrow> packState \<Rightarrow>
    error + packState" where
  "startNewIfFull fs H cap fl st =
     (case st of (blockNum, cur, currentSize, out) \<Rightarrow>
        if sint cap < sint (currentSize + fi_Size fl) then
          (case writeBlock fs H cur blockNum of
             Inl e \<Rightarrow> Inl e
           | Inr bytes \<Rightarrow>
               Inr (blockNum + 1, newBlock (blockNum + 1), 0,
                    out @ [\<lparr>w_num = blockNum, w_block = cur, w_bytes = bytes\<rparr>]))
        else Inr st)"

text \<open>
  The loop itself; \<open>i == len(files)-1\<close> holds exactly when no file follows.  The result
  is the list of block files written, with the error that stopped the loop, if any.
\<close>

fun packLoop :: "filesystem \<Rightarrow> digest \<Rightarrow> int64 \<Rightarrow> FileInfo list \<Rightarrow> packState \<Rightarrow>
    written list \<times> error option" where
  "packLoop fs H cap [] (blockNum, cur, currentSize, out) = (out, None)"
| "packLoop fs H cap (fl # rest) (blockNum, cur, currentSize, out) =
     (case startNewIfFull fs H cap fl (blockNum, cur, currentSize, out) of
        Inl e \<Rightarrow> (out, Some e)
      | Inr (blockNum', cur', currentSize', out') \<Rightarrow>
          (case addFileToBlock fs H cur' fl of
             Inl e \<Rightarrow> (out', Some e)
           | Inr cur'' \<Rightarrow>
               if rest = [] then
                 (case writeBlock fs H cur'' blockNum' of
                    Inl e \<Rightarrow> (out', Some e)
                  | Inr bytes \<Rightarrow>
                      (out' @ [\<lparr>w_num = blockNum', w_block = cur'', w_bytes = bytes\<rparr>], None))
               else packLoop fs H cap rest
                      (blockNum', cur'', currentSize' + fi_Size fl, out')))"

definition packFiles :: "filesystem \<Rightarrow> digest \<Rightarrow> int64 \<Rightarrow> FileInfo list \<Rightarrow>
    written list \<times> error option" where
  "packFiles fs H cap files = packLoop fs H cap files (1, newBlock 1, 0, [])"

section \<open>Discovery and \<open>Pack\<close>\<close>

text \<open>
  \<open>collectFileInfo\<close> stats every walked path, skips a file larger than the block size
  and keeps the others in walk order.  The file system holds regular files only, so
  \<open>IsDir\<close> is false for every path that can be stat'ed.
\<close>

fun collectFileInfo :: "filesystem \<Rightarrow> int64 \<Rightarrow> path list \<Rightarrow> error + FileInfo list" where
  "collectFileInfo fs cap [] = Inr []"
| "collectFileInfo fs cap (p # ps) =
     (case fs p of
        None \<Rightarrow> Inl (StatError p)
      | Some f \<Rightarrow>
          (case collectFileInfo fs cap ps of
             Inl e \<Rightarrow> Inl e
           | Inr infos \<Rightarrow>
               if sint cap < sint (of_nat (length (f_data f)) :: int64) then Inr infos
               else Inr (\<lparr>fi_Path = p, fi_Size = of_nat (length (f_data f)),
                           fi_ModTime = f_mtime f, fi_Mode = f_mode f,
                           fi_IsDir = False\<rparr> # infos)))"

text \<open>
  \<open>Pack\<close> takes the list of non-directory paths the walk found.  \<open>sort.Slice\<close> belongs
  to Go's standard library and is the parameter \<open>srt\<close>; its contract is that the result
  is a permutation of the argument ordered by the comparison, here size descending,
  with no promise on the order of equal elements.
\<close>

definition Pack :: "filesystem \<Rightarrow> digest \<Rightarrow> (FileInfo list \<Rightarrow> FileInfo list) \<Rightarrow> int64 \<Rightarrow>
    path list \<Rightarrow> written list \<times> error option" where
  "Pack fs H srt cap files =
     (if files = [] then ([], Some NoFilesFound)
      else (case collectFileInfo fs cap files of
              Inl e \<Rightarrow> ([], Some e)
            | Inr fileInfos \<Rightarrow> packFiles fs H cap (srt fileInfos)))"

section \<open>Reading a block\<close>

text \<open>
  A block file being read is the list of bytes not yet consumed.  \<open>binary.Read\<close> fills
  a fixed number of bytes through \<open>io.ReadFull\<close>: at the end of the stream it fails with
  \<open>io.EOF\<close>, after a part of the bytes with \<open>io.ErrUnexpectedEOF\<close>.
\<close>

definition readFull :: "nat \<Rightarrow> byte list \<Rightarrow> error + (byte list \<times> byte list)" where
  "readFull n bs =
     (if n \<le> length bs then Inr (take n bs, drop n bs)
      else if bs = [] then Inl EOF else Inl ErrUnexpectedEOF)"

definition binaryRead32 :: "byte list \<Rightarrow> error + (32 word \<times> byte list)" where
  "binaryRead32 bs =
     (case readFull 4 bs of Inl e \<Rightarrow> Inl e | Inr (b, rest) \<Rightarrow> Inr (le_word b, rest))"

definition binaryRead64 :: "byte list \<Rightarrow> error + (64 word \<times> byte list)" where
  "binaryRead64 bs =
     (case readFull 8 bs of Inl e \<Rightarrow> Inl e | Inr (b, rest) \<Rightarrow> Inr (le_word b, rest))"

text \<open>
  A single \<open>Read\<close> on the file into a zeroed buffer of \<open>n\<close> bytes: an empty buffer reads
  nothing, the end of the file is \<open>io.EOF\<close>, and otherwise the bytes that are there are
  copied and the call succeeds, also when they are fewer than \<open>n\<close>; the buffer then keeps
  its zeros.
\<close>

definition fileRead :: "nat \<Rightarrow> byte list \<Rightarrow> error + (byte list \<times> byte list)" where
  "fileRead n bs =
     (if n = 0 then Inr ([], bs)
      else if bs = [] then Inl EOF
      else Inr (take n bs @ replicate (n - length bs) 0, drop n bs))"

text \<open>
  The Go runtime allocates what \<open>make\<close> asks for, or the process dies: \<open>make\<close> panics
  on a negative length, and the runtime aborts with \<open>out of memory\<close> when the bytes
  asked for are more than it can obtain.  Both end the process and are no error returns.
  The bytes obtainable, \<open>mem\<close>, belong to the environment of a run.  A \<open>FileMetadata\<close>
  value takes 88 bytes: a string header of 16, a \<open>time.Time\<close> of 24, a slice header of 24,
  two \<open>int64\<close> and two 32-bit fields.
\<close>

definition recordSize :: int where
  "recordSize = 88"

definition makeSlice :: "int \<Rightarrow> int \<Rightarrow> int \<Rightarrow> error option" where
  "makeSlice mem elemSize len =
     (if len < 0 then Some MakeslicePanic
      else if mem < elemSize * len then Some OutOfMemory
      else None)"

text \<open>
  \<open>readMetadata\<close>.  The path length is not checked before \<open>make([]byte, pathLen)\<close>.
  The block id of the record is not stored in the file and stays zero.
\<close>

definition readMetadata :: "int \<Rightarrow> byte list \<Rightarrow> error + (FileMetadata \<times> byte list)" where
  "readMetadata mem r =
     (case binaryRead32 r of Inl e \<Rightarrow> Inl e | Inr (pathLen, r1) \<Rightarrow>
      (case makeSlice mem 1 (sint pathLen) of Some e \<Rightarrow> Inl e | None \<Rightarrow>
      (case fileRead (nat (sint pathLen)) r1 of Inl e \<Rightarrow> Inl e | Inr (pathBytes, r2) \<Rightarrow>
      (case binaryRead64 r2 of Inl e \<Rightarrow> Inl e | Inr (size', r3) \<Rightarrow>
      (case binaryRead64 r3 of Inl e \<Rightarrow> Inl e | Inr (modTime, r4) \<Rightarrow>
      (case binaryRead64 r4 of Inl e \<Rightarrow> Inl e | Inr (offset, r5) \<Rightarrow>
      (case binaryRead32 r5 of Inl e \<Rightarrow> Inl e | Inr (mode, r6) \<Rightarrow>
      (case fileRead 32 r6 of Inl e \<Rightarrow> Inl e | Inr (checksum, r7) \<Rightarrow>
         Inr (\<lparr>fm_Path = pathBytes, fm_Size = size', fm_ModTime = time_Unix modTime 0,
               fm_Checksum = checksum, fm_Offset = offset, fm_BlockID = 0,
               fm_Mode = mode\<rparr>, r7)))))))))"

text \<open>The loop of \<open>UnpackBlock\<close> that reads \<open>numFiles\<close> records.\<close>

fun readRecords :: "int \<Rightarrow> nat \<Rightarrow> byte list \<Rightarrow> error + (FileMetadata list \<times> byte list)" where
  "readRecords mem 0 r = Inr ([], r)"
| "readRecords mem (Suc n) r =
     (case readMetadata mem r of Inl e \<Rightarrow> Inl e | Inr (m, r') \<Rightarrow>
      (case readRecords mem n r' of Inl e \<Rightarrow> Inl e | Inr (ms, r'') \<Rightarrow> Inr (m # ms, r'')))"

text \<open>
  The decoding half of \<open>UnpackBlock\<close>: block id, file count, then the records.  The
  slice of \<open>numFiles\<close> records is allocated before any record is read, and the count is
  not checked.
\<close>

definition decodeBlock :: "int \<Rightarrow> byte list \<Rightarrow> error + (FileMetadata list \<times> byte list)" where
  "decodeBlock mem f =
     (case binaryRead32 f of Inl e \<Rightarrow> Inl e | Inr (blockID, r1) \<Rightarrow>
      (case binaryRead32 r1 of Inl e \<Rightarrow> Inl e | Inr (numFiles, r2) \<Rightarrow>
      (case makeSlice mem recordSize (sint numFiles) of Some e \<Rightarrow> Inl e | None \<Rightarrow>
         readRecords mem (nat (sint numFiles)) r2)))"

section \<open>Extraction\<close>

text \<open>
  What the operating system and the runtime contribute to a run of \<open>Unpack\<close>: the umask
  of the process, the clock, the bytes the runtime can obtain, and the calls on a
  destination that fail.
\<close>

datatype oscall = MkdirAll | OpenFile | Chtimes

record env =
  e_umask :: uint32
  e_now :: Time
  e_mem :: int
  e_fails :: "oscall \<Rightarrow> path \<Rightarrow> bool"

text \<open>
  The output tree is a file system keyed by the stored path, the destination being the
  output root joined with it.

  \<open>os.OpenFile\<close> with \<open>O_CREATE|O_WRONLY\<close> and no \<open>O_TRUNC\<close>: a file that is not there
  is created empty, with the permission, setuid, setgid and sticky bits of the mode passed
  and the permission bits of the umask cleared; a file that is there is opened as it is,
  with its bytes and its mode.  Nothing in the repository calls \<open>Chmod\<close>.
\<close>

definition createMode :: "uint32 \<Rightarrow> uint32 \<Rightarrow> uint32" where
  "createMode umask mode = (mode AND (511 OR 8388608 OR 4194304 OR 1048576)) AND NOT (umask AND 511)"

definition openDest :: "env \<Rightarrow> filesystem \<Rightarrow> FileMetadata \<Rightarrow> regfile" where
  "openDest env out m =
     (case out (fm_Path m) of
        None \<Rightarrow> \<lparr>f_data = [], f_mode = createMode (e_umask env) (fm_Mode m), f_mtime = e_now env\<rparr>
      | Some f \<Rightarrow> f)"

text \<open>Writing \<open>d\<close> from the start of the open file: bytes beyond \<open>d\<close> stay.\<close>

definition copied :: "env \<Rightarrow> regfile \<Rightarrow> byte list \<Rightarrow> regfile" where
  "copied env f d =
     f\<lparr>f_data := d @ drop (length d) (f_data f),
       f_mtime := (if d = [] then f_mtime f else e_now env)\<rparr>"

text \<open>The output tree after the copy, and after \<open>Chtimes\<close>.\<close>

definition leftAfterCopy :: "env \<Rightarrow> filesystem \<Rightarrow> FileMetadata \<Rightarrow> byte list \<Rightarrow> filesystem" where
  "leftAfterCopy env out m d = out(fm_Path m \<mapsto> copied env (openDest env out m) d)"

definition extracted :: "env \<Rightarrow> filesystem \<Rightarrow> FileMetadata \<Rightarrow> byte list \<Rightarrow> filesystem" where
  "extracted env out m d =
     out(fm_Path m \<mapsto> (copied env (openDest env out m) d)\<lparr>f_mtime := fm_ModTime m\<rparr>)"

text \<open>
  \<open>extractFile\<close>.  \<open>io.CopyN\<close> of \<open>n\<close> bytes: nothing is copied and no error is returned
  when \<open>n\<close> is not positive; the copy fails with \<open>io.EOF\<close>, after writing what was there,
  when fewer than \<open>n\<close> bytes remain.  The digest is that of the bytes copied.
\<close>

definition extractFile :: "env \<Rightarrow> digest \<Rightarrow> filesystem \<Rightarrow> byte list \<Rightarrow> FileMetadata \<Rightarrow>
    filesystem \<times> error option \<times> byte list" where
  "extractFile env H out r m =
     (if e_fails env MkdirAll (fm_Path m) then (out, Some (MkdirError (fm_Path m)), r)
      else if e_fails env OpenFile (fm_Path m) then (out, Some (CreateError (fm_Path m)), r)
      else
        (let n = sint (fm_Size m);
             d = (if n \<le> 0 then [] else take (nat n) r);
             r' = (if n \<le> 0 then r else drop (nat n) r)
         in if 0 < n \<and> int (length r) < n then (leftAfterCopy env out m d, Some EOF, r')
            else if H d \<noteq> fm_Checksum m
              then (leftAfterCopy env out m d, Some (ChecksumMismatch (fm_Path m)), r')
            else if e_fails env Chtimes (fm_Path m)
              then (leftAfterCopy env out m d, Some (ChtimesError (fm_Path m)), r')
            else (extracted env out m d, None, r')))"

text \<open>The extraction loop of \<open>UnpackBlock\<close>, which returns at the first error.\<close>

fun extractAll :: "env \<Rightarrow> digest \<Rightarrow> filesystem \<Rightarrow> FileMetadata list \<Rightarrow> byte list \<Rightarrow>
    filesystem \<times> error option" where
  "extractAll env H out [] r = (out, None)"
| "extractAll env H out (m # ms) r =
     (case extractFile env H out r m of
        (out', Some e, r') \<Rightarrow> (out', Some e)
      | (out', None, r') \<Rightarrow> extractAll env H out' ms r')"

section \<open>Validation\<close>

text \<open>\<open>ChecksumsEqual\<close>: the lengths are compared, then the bytes one by one.\<close>

definition ChecksumsEqual :: "byte list \<Rightarrow> byte list \<Rightarrow> bool" where
  "ChecksumsEqual a b =
     (if length a \<noteq> length b then False else list_all (\<lambda>(av, bv). av = bv) (zip a b))"

text \<open>
  \<open>ValidateBlock\<close> on the bytes of a block file; \<open>None\<close> is the \<open>nil\<close> error.  Seeking
  to 32 bytes before the end fails on a file shorter than that.
\<close>

definition ValidateBlock :: "digest \<Rightarrow> byte list \<Rightarrow> error option" where
  "ValidateBlock H f =
     (case binaryRead32 f of Inl e \<Rightarrow> Some e | Inr (blockID, r) \<Rightarrow>
      if length f < 32 then Some SeekError
      else
        (let storedChecksum = drop (length f - 32) f;
             actualChecksum = H (take (length f - 32) f)
         in if \<not> ChecksumsEqual storedChecksum actualChecksum
            then Some (BlockIntegrityError blockID storedChecksum actualChecksum)
            else None))"

section \<open>\<open>UnpackBlock\<close> and \<open>Unpack\<close>\<close>

definition UnpackBlock :: "env \<Rightarrow> bool \<Rightarrow> digest \<Rightarrow> filesystem \<Rightarrow> byte list \<Rightarrow>
    filesystem \<times> error option" where
  "UnpackBlock env VerifyIntegrity H out f =
     (case (if VerifyIntegrity then ValidateBlock H f else None) of
        Some e \<Rightarrow> (out, Some e)
      | None \<Rightarrow>
          (case decodeBlock (e_mem env) f of
             Inl e \<Rightarrow> (out, Some e)
           | Inr (files, r) \<Rightarrow> extractAll env H out files r))"

text \<open>\<open>Unpack\<close> on a directory: the block files in the order of the listing.\<close>

fun Unpack :: "env \<Rightarrow> bool \<Rightarrow> digest \<Rightarrow> filesystem \<Rightarrow> byte list list \<Rightarrow>
    filesystem \<times> error option" where
  "Unpack env VerifyIntegrity H out [] = (out, None)"
| "Unpack env VerifyIntegrity H out (f # fs) =
     (case UnpackBlock env VerifyIntegrity H out f of
        (out', Some e) \<Rightarrow> (out', Some e)
      | (out', None) \<Rightarrow> Unpack env VerifyIntegrity H out' fs)"

section \<open>Predicates used in the statements\<close>

text \<open>Offsets that start at \<open>off\<close> and advance by the size of each record.\<close>

fun contiguous :: "int64 \<Rightarrow> FileMetadata list \<Rightarrow> bool" where
  "contiguous off [] = True"
| "contiguous off (m # ms) = (fm_Offset m = off \<and> contiguous (off + fm_Size m) ms)"

definition blk_ok :: "Block \<Rightarrow> bool" where
  "blk_ok b = (blk_Size b = sum_list (map fm_Size (blk_Files b)) \<and> contiguous 0 (blk_Files b))"

text \<open>A block that holds a file and whose sizes add up, in \<open>int64\<close>, to at most the capacity.\<close>

definition within :: "int64 \<Rightarrow> Block \<Rightarrow> bool" where
  "within cap b = (blk_Files b \<noteq> [] \<and> sint (sum_list (map fm_Size (blk_Files b))) \<le> sint cap)"

definition capInv :: "int64 \<Rightarrow> packState \<Rightarrow> bool" where
  "capInv cap st = (case st of (bn, cur, cs, out) \<Rightarrow>
     cs = sum_list (map fm_Size (blk_Files cur)) \<and> (blk_Files cur \<noteq> [] \<longrightarrow> sint cs \<le> sint cap) \<and>
     (\<forall>w\<in>set out. within cap (w_block w)))"

definition capMid :: "int64 \<Rightarrow> FileInfo \<Rightarrow> packState \<Rightarrow> bool" where
  "capMid cap f st = (case st of (bn, cur, cs, out) \<Rightarrow>
     cs = sum_list (map fm_Size (blk_Files cur)) \<and> sint (cs + fi_Size f) \<le> sint cap \<and>
     (\<forall>w\<in>set out. within cap (w_block w)))"

definition capPost :: "int64 \<Rightarrow> packState \<Rightarrow> bool" where
  "capPost cap st = (case st of (bn, cur, cs, out) \<Rightarrow>
     cs = sum_list (map fm_Size (blk_Files cur)) \<and> within cap cur \<and>
     (\<forall>w\<in>set out. within cap (w_block w)))"

text \<open>The paths of the files placed in a sequence of written blocks, in order.\<close>

definition placed :: "written list \<Rightarrow> path list" where
  "placed ws = concat (map (\<lambda>w. map fm_Path (blk_Files (w_block w))) ws)"

text \<open>The contract of \<open>sort.Slice\<close> with the comparison of \<open>Pack\<close>.\<close>

definition sizeDescending :: "FileInfo list \<Rightarrow> bool" where
  "sizeDescending xs = sorted_wrt (\<lambda>a b. sint (fi_Size b) \<le> sint (fi_Size a)) xs"

definition sortContract :: "(FileInfo list \<Rightarrow> FileInfo list) \<Rightarrow> bool" where
  "sortContract srt = (\<forall>xs. mset (srt xs) = mset xs \<and> sizeDescending (srt xs))"

text \<open>The descriptor \<open>collectFileInfo\<close> builds for a file.\<close>

definition mkInfo :: "path \<Rightarrow> regfile \<Rightarrow> FileInfo" where
  "mkInfo p f = \<lparr>fi_Path = p, fi_Size = of_nat (length (f_data f)), fi_ModTime = f_mtime f,
                 fi_Mode = f_mode f, fi_IsDir = False\<rparr>"

section \<open>Example values\<close>

text \<open>A stand-in digest of 32 bytes, and a sorter that meets the contract.\<close>

definition toyDigest :: digest where
  "toyDigest bs = take 32 (bs @ replicate 32 0)"

definition insertionSort :: "FileInfo list \<Rightarrow> FileInfo list" where
  "insertionSort xs = sort_key (\<lambda>f. - sint (fi_Size f)) xs"

definition mkFile :: "byte list \<Rightarrow> regfile" where
  "mkFile d = \<lparr>f_data = d, f_mode = 420, f_mtime = time_Unix 1700000000 5\<rparr>"

definition smallFs :: filesystem where
  "smallFs = [[97] \<mapsto> mkFile [1, 2, 3], [98] \<mapsto> mkFile [4, 5], [99] \<mapsto> mkFile [6, 7]]"

definition smallInfos :: "FileInfo list" where
  "smallInfos = [mkInfo [97] (mkFile [1, 2, 3]), mkInfo [98] (mkFile [4, 5]),
                 mkInfo [99] (mkFile [6, 7])]"

definition bigFs :: filesystem where
  "bigFs = [[1] \<mapsto> mkFile (replicate (25 * 1024 * 1024) 0),
            [2] \<mapsto> mkFile (replicate (40 * 1024 * 1024) 0),
            [3] \<mapsto> mkFile (replicate (5 * 1024 * 1024) 0),
            [4] \<mapsto> mkFile (replicate (30 * 1024 * 1024) 0)]"

definition exBlock :: Block where
  "exBlock = \<lparr>blk_ID = 1,
     blk_Files = [\<lparr>fm_Path = [97], fm_Size = 3, fm_ModTime = time_Unix 1700000000 5,
                   fm_Checksum = toyDigest [1, 2, 3], fm_Offset = 0, fm_BlockID = 1,
                   fm_Mode = 420\<rparr>],
     blk_Size = 3\<rparr>"

section \<open>What a round trip restores\<close>

text \<open>
  A record as \<open>readMetadata\<close> returns it: the modification time has whole seconds only
  and the block id is zero.
\<close>

definition strip :: "FileMetadata \<Rightarrow> FileMetadata" where
  "strip m = m\<lparr>fm_ModTime := time_Unix (t_sec (fm_ModTime m)) 0, fm_BlockID := 0\<rparr>"

text \<open>
  A metadata record that describes a file of the source tree, and a descriptor that
  \<open>collectFileInfo\<close> built from one.  The length of a path fits the \<open>int32\<close> it is
  stored in, and the length of a file its \<open>int64\<close>.
\<close>

definition recordOK :: "filesystem \<Rightarrow> digest \<Rightarrow> FileMetadata \<Rightarrow> bool" where
  "recordOK fs H m =
     (case fs (fm_Path m) of
        None \<Rightarrow> False
      | Some f \<Rightarrow> fm_Size m = of_nat (length (f_data f)) \<and> length (f_data f) < 2 ^ 63 \<and>
                  fm_Checksum m = H (f_data f) \<and> fm_Mode m = f_mode f \<and>
                  fm_ModTime m = f_mtime f \<and> length (fm_Path m) < 2 ^ 31)"

definition infoOK :: "filesystem \<Rightarrow> FileInfo \<Rightarrow> bool" where
  "infoOK fs f =
     (case fs (fi_Path f) of
        None \<Rightarrow> False
      | Some d \<Rightarrow> f = mkInfo (fi_Path f) d \<and> length (f_data d) < 2 ^ 63 \<and>
                  length (fi_Path f) < 2 ^ 31)"

definition payloadOf :: "filesystem \<Rightarrow> FileMetadata \<Rightarrow> byte list" where
  "payloadOf fs m = f_data (the (fs (fm_Path m)))"

text \<open>
  The output tree after the files of a list of records have been extracted one after
  the other, each with the bytes the source tree has for it.
\<close>

fun restoreAll :: "env \<Rightarrow> filesystem \<Rightarrow> filesystem \<Rightarrow> FileMetadata list \<Rightarrow> filesystem" where
  "restoreAll env fs out [] = out"
| "restoreAll env fs out (m # ms) = restoreAll env fs (extracted env out (strip m) (payloadOf fs m)) ms"

text \<open>An environment in which no call fails, with the usual umask of 022.\<close>

definition quietEnv :: env where
  "quietEnv = \<lparr>e_umask = 18, e_now = time_Unix 1800000000 0, e_mem = 1073741824,
               e_fails = (\<lambda>c p. False)\<rparr>"

text \<open>A written block file is the encoding of its block, and its records describe source files.\<close>

definition writtenOK :: "filesystem \<Rightarrow> digest \<Rightarrow> written \<Rightarrow> bool" where
  "writtenOK fs H w = (writeBlock fs H (w_block w) (w_num w) = Inr (w_bytes w) \<and>
                       list_all (recordOK fs H) (blk_Files (w_block w)))"

definition recInv :: "filesystem \<Rightarrow> digest \<Rightarrow> packState \<Rightarrow> bool" where
  "recInv fs H st = (case st of (bn, cur, cs, out) \<Rightarrow>
     list_all (recordOK fs H) (blk_Files cur) \<and> list_all (writtenOK fs H) out)"

text \<open>The second block of the small example, and the bytes of its block file.\<close>

definition exBlock2 :: Block where
  "exBlock2 = \<lparr>blk_ID = 2,
     blk_Files = [\<lparr>fm_Path = [98], fm_Size = 2, fm_ModTime = time_Unix 1700000000 5,
                   fm_Checksum = toyDigest [4, 5], fm_Offset = 0, fm_BlockID = 2,
                   fm_Mode = 420\<rparr>,
                  \<lparr>fm_Path = [99], fm_Size = 2, fm_ModTime = time_Unix 1700000000 5,
                   fm_Checksum = toyDigest [6, 7], fm_Offset = 2, fm_BlockID = 2,
                   fm_Mode = 420\<rparr>],
     blk_Size = 4\<rparr>"

definition exBytes2 :: "byte list" where
  "exBytes2 = projr (writeBlock smallFs toyDigest exBlock2 2)"

text \<open>The two end-of-stream errors of \<open>io\<close>.\<close>

definition streamError :: "error \<Rightarrow> bool" where
  "streamError e = (e = EOF \<or> e = ErrUnexpectedEOF)"

text \<open>
  A block file that declares one record and ends after the first byte of its checksum.
\<close>

definition truncatedBlock :: "byte list" where
  "truncatedBlock = le32 1 @ le32 1 @ le32 0 @ le64 0 @ le64 0 @ le64 0 @ le32 0 @ [7]"



text \<open>
  The sum of the sizes of a list of records as a number, and the lists whose sizes are
  not negative and whose \<open>int64\<close> sum is that number: lists on which no addition wrapped.
\<close>

definition trueSum :: "FileMetadata list \<Rightarrow> int" where
  "trueSum ms = sum_list (map (\<lambda>m. sint (fm_Size m)) ms)"

definition exact :: "FileMetadata list \<Rightarrow> bool" where
  "exact ms = (list_all (\<lambda>m. 0 \<le> sint (fm_Size m)) ms \<and>
               sint (sum_list (map fm_Size ms)) = trueSum ms)"

definition exInv :: "int64 \<Rightarrow> packState \<Rightarrow> bool" where
  "exInv cap st = (case st of (bn, cur, cs, out) \<Rightarrow>
     cs = sum_list (map fm_Size (blk_Files cur)) \<and> exact (blk_Files cur) \<and>
     (blk_Files cur \<noteq> [] \<longrightarrow> sint cs \<le> sint cap) \<and>
     list_all (\<lambda>w. exact (blk_Files (w_block w)) \<and> trueSum (blk_Files (w_block w)) \<le> sint cap) out)"

definition exMid :: "int64 \<Rightarrow> FileInfo \<Rightarrow> packState \<Rightarrow> bool" where
  "exMid cap f st = (case st of (bn, cur, cs, out) \<Rightarrow>
     cs = sum_list (map fm_Size (blk_Files cur)) \<and> exact (blk_Files cur) \<and>
     sint cs + sint (fi_Size f) \<le> sint cap \<and>
     list_all (\<lambda>w. exact (blk_Files (w_block w)) \<and> trueSum (blk_Files (w_block w)) \<le> sint cap) out)"

definition exPost :: "int64 \<Rightarrow> packState \<Rightarrow> bool" where
  "exPost cap st = (case st of (bn, cur, cs, out) \<Rightarrow>
     cs = sum_list (map fm_Size (blk_Files cur)) \<and> exact (blk_Files cur) \<and>
     sint cs \<le> sint cap \<and>
     list_all (\<lambda>w. exact (blk_Files (w_block w)) \<and> trueSum (blk_Files (w_block w)) \<le> sint cap) out)"

text \<open>The calls that an extraction of these records makes all succeed.\<close>

definition noFailure :: "env \<Rightarrow> FileMetadata list \<Rightarrow> bool" where
  "noFailure env ms = list_all (\<lambda>m. \<not> e_fails env MkdirAll (fm_Path m) \<and>
      \<not> e_fails env OpenFile (fm_Path m) \<and> \<not> e_fails env Chtimes (fm_Path m)) ms"

text \<open>
  A source tree with one file that its group may write (mode 0664), the block files
  \<open>Pack\<close> writes for it, and an output tree that already has a longer file at its place.
\<close>

definition sharedFs :: filesystem where
  "sharedFs = [[97] \<mapsto> \<lparr>f_data = [1, 2, 3], f_mode = 436, f_mtime = time_Unix 1700000000 5\<rparr>]"

definition staleOut :: filesystem where
  "staleOut = [[97] \<mapsto> \<lparr>f_data = [9, 9, 9, 9, 9], f_mode = 384, f_mtime = time_Unix 1600000000 0\<rparr>]"

definition sharedBlocks :: "byte list list" where
  "sharedBlocks = map w_bytes (fst (Pack sharedFs toyDigest insertionSort 4 [[97]]))"

section \<open>The packing loop\<close>

lemma packLoop_inv_rule:
  assumes S1: "\<And>f st st'. Pf f \<Longrightarrow> Inv st \<Longrightarrow> startNewIfFull fs H cap f st = Inr st' \<Longrightarrow> Mid f st'"
    and S2: "\<And>f bn cur cs out cur'. Pf f \<Longrightarrow> Mid f (bn, cur, cs, out) \<Longrightarrow>
               addFileToBlock fs H cur f = Inr cur' \<Longrightarrow> Post (bn, cur', cs + fi_Size f, out)"
    and PI: "\<And>st. Post st \<Longrightarrow> Inv st"
    and O1: "\<And>bn cur cs out. Inv (bn, cur, cs, out) \<Longrightarrow> Outs out"
    and O2: "\<And>f bn cur cs out. Mid f (bn, cur, cs, out) \<Longrightarrow> Outs out"
    and O3: "\<And>bn cur cs out bytes. Post (bn, cur, cs, out) \<Longrightarrow> writeBlock fs H cur bn = Inr bytes \<Longrightarrow>
               Outs (out @ [\<lparr>w_num = bn, w_block = cur, w_bytes = bytes\<rparr>])"
  shows "\<forall>f\<in>set files. Pf f \<Longrightarrow> Inv st \<Longrightarrow> Outs (fst (packLoop fs H cap files st))"
proof (induction files arbitrary: st)
  case Nil
  obtain bn cur cs out where st: "st = (bn, cur, cs, out)" by (cases st) auto
  with Nil O1 show ?case by auto
next
  case (Cons f rest)
  obtain bn cur cs out where st: "st = (bn, cur, cs, out)" by (cases st) auto
  have pf: "Pf f" using Cons.prems by simp
  show ?case
  proof (cases "startNewIfFull fs H cap f st")
    case (Inl e)
    then show ?thesis using O1 Cons.prems(2) st by auto
  next
    case (Inr st')
    obtain bn' cur' cs' out' where st': "st' = (bn', cur', cs', out')" by (cases st') auto
    have mid: "Mid f (bn', cur', cs', out')" using S1 [OF pf Cons.prems(2) Inr] st' by simp
    show ?thesis
    proof (cases "addFileToBlock fs H cur' f")
      case (Inl e)
      then show ?thesis using Inr st st' O2 [OF mid] by simp
    next
      case add: (Inr cur'')
      have post: "Post (bn', cur'', cs' + fi_Size f, out')" using S2 [OF pf mid add] .
      show ?thesis
      proof (cases "rest = []")
        case True
        then show ?thesis using Inr st st' add O2 [OF mid] O3 [OF post]
          by (simp split: sum.splits)
      next
        case False
        have "Outs (fst (packLoop fs H cap rest (bn', cur'', cs' + fi_Size f, out')))"
          using Cons.IH [OF _ PI [OF post]] Cons.prems(1) by simp
        then show ?thesis using Inr st st' add False by simp
      qed
    qed
  qed
qed

lemma startNew_cases:
  assumes "startNewIfFull fs H cap f (bn, cur, cs, out) = Inr (bn', cur', cs', out')"
  shows "(sint cap < sint (cs + fi_Size f) \<and> bn' = bn + 1 \<and> cur' = newBlock (bn + 1) \<and> cs' = 0 \<and>
           (\<exists>bytes. writeBlock fs H cur bn = Inr bytes \<and> out' = out @ [\<lparr>w_num = bn, w_block = cur, w_bytes = bytes\<rparr>]))
       \<or> (\<not> sint cap < sint (cs + fi_Size f) \<and> bn' = bn \<and> cur' = cur \<and> cs' = cs \<and> out' = out)"
  using assms by (auto simp: startNewIfFull_def split: if_splits sum.splits)

lemma addFileToBlock_Inr:
  assumes "addFileToBlock fs H b f = Inr b'"
  shows "\<exists>d. fs (fi_Path f) = Some d \<and> blk_ID b' = blk_ID b \<and> blk_Size b' = blk_Size b + fi_Size f \<and>
     blk_Files b' = blk_Files b @ [\<lparr>fm_Path = fi_Path f, fm_Size = fi_Size f,
                           fm_ModTime = fi_ModTime f, fm_Checksum = H (f_data d),
                           fm_Offset = blk_Size b, fm_BlockID = blk_ID b,
                           fm_Mode = fi_Mode f\<rparr>]"
  using assms by (auto simp: addFileToBlock_def Let_def split: option.splits)

lemma packLoop_within:
  assumes "\<forall>f\<in>set files. sint (fi_Size f) \<le> sint cap" "capInv cap st"
  shows "\<forall>w\<in>set (fst (packLoop fs H cap files st)). within cap (w_block w)"
proof -
  have "(\<lambda>out. \<forall>w\<in>set out. within cap (w_block w)) (fst (packLoop fs H cap files st))"
  proof (rule packLoop_inv_rule [where Pf = "\<lambda>f. sint (fi_Size f) \<le> sint cap" and Inv = "capInv cap"
        and Mid = "capMid cap" and Post = "capPost cap"])
    fix f st st' assume "sint (fi_Size f) \<le> sint cap" "capInv cap st" "startNewIfFull fs H cap f st = Inr st'"
    then show "capMid cap f st'"
      by (cases st; cases st') (auto dest!: startNew_cases simp: newBlock_def capInv_def capMid_def within_def)
  next
    fix f bn cur cs out cur'
    assume "capMid cap f (bn, cur, cs, out)" "addFileToBlock fs H cur f = Inr cur'"
    then show "capPost cap (bn, cur', cs + fi_Size f, out)"
      by (auto dest!: addFileToBlock_Inr simp: capMid_def capPost_def within_def)
  next
    fix st assume "capPost cap st" then show "capInv cap st"
      by (cases st) (auto simp: capPost_def capInv_def within_def)
  qed (use assms in \<open>auto simp: capInv_def capMid_def capPost_def\<close>)
  then show ?thesis .
qed

lemma capInv_init: "capInv cap (1, newBlock 1, 0, [])"
  by (simp add: capInv_def newBlock_def)

lemma packLoop_placed:
  "files \<noteq> [] \<Longrightarrow> packLoop fs H cap files (bn, cur, cs, out) = (ws, None) \<Longrightarrow>
   placed ws = placed out @ map fm_Path (blk_Files cur) @ map fi_Path files"
proof (induction files arbitrary: bn cur cs out)
  case Nil then show ?case by simp
next
  case (Cons f rest)
  from Cons.prems(2) obtain bn' cur' cs' out' cur'' where
    sn: "startNewIfFull fs H cap f (bn, cur, cs, out) = Inr (bn', cur', cs', out')"
    and add: "addFileToBlock fs H cur' f = Inr cur''"
    by (auto split: sum.splits)
  have mid: "placed out' @ map fm_Path (blk_Files cur') = placed out @ map fm_Path (blk_Files cur)"
    using startNew_cases [OF sn] by (auto simp: newBlock_def placed_def)
  have fl: "map fm_Path (blk_Files cur'') = map fm_Path (blk_Files cur') @ [fi_Path f]"
    using addFileToBlock_Inr [OF add] by auto
  show ?case
  proof (cases "rest = []")
    case True
    then have "placed ws = placed out' @ map fm_Path (blk_Files cur'')"
      using Cons.prems(2) sn add by (auto simp: placed_def split: sum.splits)
    then show ?thesis using mid fl True by simp
  next
    case False
    then have "packLoop fs H cap rest (bn', cur'', cs' + fi_Size f, out') = (ws, None)"
      using Cons.prems(2) sn add by simp
    from Cons.IH [OF False this] show ?thesis using mid fl by simp
  qed
qed

lemma writeContents_ok:
  "\<forall>m\<in>set ms. fs (fm_Path m) \<noteq> None \<Longrightarrow> \<exists>bs. writeContents fs ms = Inr bs"
  by (induction ms) auto

lemma writeBlock_ok:
  "\<forall>m\<in>set (blk_Files b). fs (fm_Path m) \<noteq> None \<Longrightarrow> \<exists>bs. writeBlock fs H b n = Inr bs"
  using writeContents_ok [of "blk_Files b" fs] by (auto simp: writeBlock_def Let_def)

lemma packLoop_no_error:
  "\<forall>f\<in>set files. fs (fi_Path f) \<noteq> None \<Longrightarrow> \<forall>m\<in>set (blk_Files cur). fs (fm_Path m) \<noteq> None \<Longrightarrow>
   snd (packLoop fs H cap files (bn, cur, cs, out)) = None"
proof (induction files arbitrary: bn cur cs out)
  case Nil then show ?case by simp
next
  case (Cons f rest)
  have "\<exists>st'. startNewIfFull fs H cap f (bn, cur, cs, out) = Inr st'"
    using writeBlock_ok [OF Cons.prems(2), of H bn]
    by (auto simp: startNewIfFull_def)
  then obtain bn' cur' cs' out' where
    sn: "startNewIfFull fs H cap f (bn, cur, cs, out) = Inr (bn', cur', cs', out')"
    by (metis prod_cases4)
  have c': "\<forall>m\<in>set (blk_Files cur'). fs (fm_Path m) \<noteq> None"
    using startNew_cases [OF sn] Cons.prems(2) by (auto simp: newBlock_def)
  obtain d where d: "fs (fi_Path f) = Some d" using Cons.prems(1) by auto
  then obtain cur'' where add: "addFileToBlock fs H cur' f = Inr cur''"
    by (auto simp: addFileToBlock_def Let_def)
  have c'': "\<forall>m\<in>set (blk_Files cur''). fs (fm_Path m) \<noteq> None"
    using addFileToBlock_Inr [OF add] c' d by auto
  show ?case
  proof (cases "rest = []")
    case True
    then show ?thesis using sn add writeBlock_ok [OF c'', of H bn'] by auto
  next
    case False
    then show ?thesis using sn add Cons.IH [OF _ c''] Cons.prems(1) by simp
  qed
qed

lemma contiguous_nth:
  "contiguous off ms \<Longrightarrow> (ms \<noteq> [] \<longrightarrow> fm_Offset (ms ! 0) = off) \<and>
    (\<forall>i. Suc i < length ms \<longrightarrow> fm_Offset (ms ! Suc i) = fm_Offset (ms ! i) + fm_Size (ms ! i))"
proof (induction ms arbitrary: off)
  case Nil then show ?case by simp
next
  case (Cons m ms)
  then have c: "contiguous (off + fm_Size m) ms" and o: "fm_Offset m = off" by auto
  note ih = Cons.IH [OF c]
  show ?case
  proof (intro conjI allI impI)
    show "fm_Offset ((m # ms) ! 0) = off" using o by simp
  next
    fix i assume "Suc i < length (m # ms)"
    then show "fm_Offset ((m # ms) ! Suc i) = fm_Offset ((m # ms) ! i) + fm_Size ((m # ms) ! i)"
      using ih o by (cases i) auto
  qed
qed


lemma contiguous_snoc:
  "contiguous off (ms @ [m]) = (contiguous off ms \<and> fm_Offset m = off + sum_list (map fm_Size ms))"
  by (induction ms arbitrary: off) (auto simp: add.assoc)

lemma addFileToBlock_blk_ok: "blk_ok b \<Longrightarrow> addFileToBlock fs H b f = Inr b' \<Longrightarrow> blk_ok b'"
  by (auto simp: blk_ok_def addFileToBlock_def Let_def contiguous_snoc split: option.splits)

lemma packLoop_contig:
  assumes "blk_ok cur" "\<forall>w\<in>set out. blk_ok (w_block w)"
  shows "\<forall>w\<in>set (fst (packLoop fs H cap files (bn, cur, cs, out))). blk_ok (w_block w)"
proof -
  let ?Inv = "\<lambda>st::packState. case st of (bn, cur, cs, out) \<Rightarrow>
                blk_ok cur \<and> (\<forall>w\<in>set out. blk_ok (w_block w))"
  have "(\<lambda>out. \<forall>w\<in>set out. blk_ok (w_block w)) (fst (packLoop fs H cap files (bn, cur, cs, out)))"
  proof (rule packLoop_inv_rule [where Pf = "\<lambda>_. True" and Inv = ?Inv and Mid = "\<lambda>_. ?Inv"
        and Post = ?Inv])
    fix f st st' assume "?Inv st" "startNewIfFull fs H cap f st = Inr st'"
    then show "?Inv st'"
      by (cases st; cases st') (auto dest!: startNew_cases simp: newBlock_def blk_ok_def)
  next
    fix f bn cur cs out cur'
    assume "?Inv (bn, cur, cs, out)" "addFileToBlock fs H cur f = Inr cur'"
    then show "?Inv (bn, cur', cs + fi_Size f, out)" by (auto dest: addFileToBlock_blk_ok)
  qed (use assms in auto)
  then show ?thesis .
qed

lemma sortContract_insertionSort: "sortContract insertionSort"
proof -
  have "sizeDescending (insertionSort xs)" for xs
    using sorted_sort_key [of "\<lambda>f. - sint (fi_Size f)" xs]
    by (simp add: sizeDescending_def insertionSort_def sorted_map)
  then show ?thesis by (simp add: sortContract_def insertionSort_def)
qed

lemma toyDigest_length: "length (toyDigest bs) = 32"
  by (simp add: toyDigest_def)

lemma sizeDescending_sorted: "sizeDescending xs = sorted (map (\<lambda>f. - sint (fi_Size f)) xs)"
  by (simp add: sizeDescending_def sorted_wrt_map)

lemma sorted_unique:
  assumes c: "sortContract srt" and p: "mset xs = mset ys" and s: "sizeDescending ys"
    and d: "distinct (map (\<lambda>f. sint (fi_Size f)) ys)"
  shows "srt xs = ys"
proof -
  let ?k = "\<lambda>f. - sint (fi_Size f)"
  have m: "mset (srt xs) = mset ys" and s': "sizeDescending (srt xs)"
    using c p by (auto simp: sortContract_def)
  have dk: "distinct (map ?k ys)" using d by (simp add: distinct_map inj_on_def)
  have "mset (map ?k (srt xs)) = mset (map ?k ys)" using m by simp
  then have dk': "distinct (map ?k (srt xs))" using dk by (metis mset_eq_imp_distinct_iff)
  have inj: "inj_on ?k (set (srt xs) \<union> set ys)"
    using dk m by (metis distinct_map mset_eq_setD sup.idem)
  show ?thesis
    by (rule map_sorted_distinct_set_unique [OF inj])
       (use s s' dk dk' m in \<open>auto simp: sizeDescending_sorted dest: mset_eq_setD\<close>)
qed

lemma sint_add_exact:
  assumes "0 \<le> sint (a :: int64)" "0 \<le> sint (b :: int64)" "sint a + sint b < 2 ^ 63"
  shows "sint (a + b) = sint a + sint b"
proof -
  have "sint (a + b) = signed_take_bit 63 (sint a + sint b)"
    by (simp add: sint_word_ariths)
  also have "\<dots> = sint a + sint b"
    using assms by (intro signed_take_bit_int_eq_self) simp_all
  finally show ?thesis .
qed

lemma exact_Nil: "exact []"
  by (simp add: exact_def trueSum_def)

lemma exact_nonneg: "exact ms \<Longrightarrow> 0 \<le> sint (sum_list (map fm_Size ms))"
proof -
  assume e: "exact ms"
  then have "0 \<le> trueSum ms"
    unfolding trueSum_def by (intro sum_list_nonneg) (auto simp: exact_def list_all_iff)
  then show ?thesis using e by (simp add: exact_def)
qed

lemma packLoop_exact:
  assumes cap: "sint cap < 2 ^ 62"
    and sz: "\<forall>f\<in>set files. 0 \<le> sint (fi_Size f) \<and> sint (fi_Size f) \<le> sint cap"
    and inv: "exInv cap st"
  shows "list_all (\<lambda>w. exact (blk_Files (w_block w)) \<and> trueSum (blk_Files (w_block w)) \<le> sint cap)
           (fst (packLoop fs H cap files st))"
proof (rule packLoop_inv_rule [where Pf = "\<lambda>f. 0 \<le> sint (fi_Size f) \<and> sint (fi_Size f) \<le> sint cap"
      and Inv = "exInv cap" and Mid = "exMid cap" and Post = "exPost cap", rule_format,
      OF _ _ _ _ _ _ _ inv])
  fix f st st'
  assume f: "0 \<le> sint (fi_Size f) \<and> sint (fi_Size f) \<le> sint cap" and i: "exInv cap st"
    and s: "startNewIfFull fs H cap f st = Inr st'"
  obtain bn cur cs out where st: "st = (bn, cur, cs, out)" by (cases st) auto
  obtain bn' cur' cs' out' where st': "st' = (bn', cur', cs', out')" by (cases st') auto
  have c0: "0 \<le> sint cs" using i st exact_nonneg [of "blk_Files cur"] by (auto simp: exInv_def)
  have cb: "sint cs \<le> sint cap"
  proof (cases "blk_Files cur = []")
    case True then show ?thesis using i st f by (auto simp: exInv_def)
  next
    case False then show ?thesis using i st by (auto simp: exInv_def)
  qed
  have ex: "sint (cs + fi_Size f) = sint cs + sint (fi_Size f)"
    using c0 f cb cap by (intro sint_add_exact) simp_all
  from startNew_cases [OF s [unfolded st st']] show "exMid cap f st'"
  proof (elim disjE conjE exE)
    fix bytes assume "cur' = newBlock (bn + 1)" "cs' = 0"
      "out' = out @ [\<lparr>w_num = bn, w_block = cur, w_bytes = bytes\<rparr>]"
    then show ?thesis using i st st' f cb
      by (auto simp: exInv_def exMid_def newBlock_def exact_def trueSum_def)
  next
    assume "\<not> sint cap < sint (cs + fi_Size f)" "cur' = cur" "cs' = cs" "out' = out"
    then show ?thesis using i st st' ex by (auto simp: exInv_def exMid_def)
  qed
next
  fix f bn cur cs out cur'
  assume f: "0 \<le> sint (fi_Size f) \<and> sint (fi_Size f) \<le> sint cap"
    and m: "exMid cap f (bn, cur, cs, out)" and a: "addFileToBlock fs H cur f = Inr cur'"
  have c0: "0 \<le> sint cs" using m exact_nonneg [of "blk_Files cur"] by (auto simp: exMid_def)
  have "sint cs + sint (fi_Size f) < 2 ^ 63" using m cap sint_lt [of cap] by (auto simp: exMid_def)
  then have ex: "sint (cs + fi_Size f) = sint cs + sint (fi_Size f)"
    using c0 f by (intro sint_add_exact) simp_all
  show "exPost cap (bn, cur', cs + fi_Size f, out)"
    using addFileToBlock_Inr [OF a] m f ex
    by (auto simp: exMid_def exPost_def exact_def trueSum_def)
next
  fix st assume "exPost cap st" then show "exInv cap st"
    by (cases st) (auto simp: exPost_def exInv_def)
next
  fix bn cur cs out bytes
  assume "exPost cap (bn, cur, cs, out)"
  then show "list_all (\<lambda>w. exact (blk_Files (w_block w)) \<and> trueSum (blk_Files (w_block w)) \<le> sint cap)
      (out @ [\<lparr>w_num = bn, w_block = cur, w_bytes = bytes\<rparr>])"
    by (auto simp: exPost_def exact_def)
qed (use sz in \<open>auto simp: exInv_def exMid_def\<close>)

lemma exInv_init: "exInv cap (1, newBlock 1, 0, [])"
  by (simp add: exInv_def newBlock_def exact_Nil)

lemma trueSum_nonneg: "list_all (\<lambda>m. 0 \<le> sint (fm_Size m)) ms \<Longrightarrow> 0 \<le> trueSum ms"
  unfolding trueSum_def by (intro sum_list_nonneg) (auto simp: list_all_iff)

lemma contiguous_exact:
  "contiguous off ms \<Longrightarrow> list_all (\<lambda>m. 0 \<le> sint (fm_Size m)) ms \<Longrightarrow> 0 \<le> sint off \<Longrightarrow>
   sint off + trueSum ms < 2 ^ 63 \<Longrightarrow> Suc i < length ms \<Longrightarrow>
   sint (fm_Offset (ms ! Suc i)) = sint (fm_Offset (ms ! i)) + sint (fm_Size (ms ! i))"
proof (induction ms arbitrary: off i)
  case Nil then show ?case by simp
next
  case (Cons m ms)
  have o: "fm_Offset m = off" and c: "contiguous (off + fm_Size m) ms"
    and nn: "list_all (\<lambda>m. 0 \<le> sint (fm_Size m)) ms" and m0: "0 \<le> sint (fm_Size m)"
    using Cons.prems by auto
  have t: "trueSum (m # ms) = sint (fm_Size m) + trueSum ms" by (simp add: trueSum_def)
  have t0: "0 \<le> trueSum ms" using nn by (rule trueSum_nonneg)
  have ex: "sint (off + fm_Size m) = sint off + sint (fm_Size m)"
    using Cons.prems(3,4) m0 t t0 by (intro sint_add_exact) simp_all
  show ?case
  proof (cases i)
    case 0
    then have "ms \<noteq> []" using Cons.prems(5) by auto
    then have "fm_Offset (ms ! 0) = off + fm_Size m" using contiguous_nth [OF c] by simp
    then show ?thesis using 0 o ex by simp
  next
    case (Suc j)
    have "sint (fm_Offset (ms ! Suc j)) = sint (fm_Offset (ms ! j)) + sint (fm_Size (ms ! j))"
    proof (rule Cons.IH [OF c nn])
      show "0 \<le> sint (off + fm_Size m)" using ex Cons.prems(3) m0 by simp
      show "sint (off + fm_Size m) + trueSum ms < 2 ^ 63" using ex Cons.prems(4) t by simp
      show "Suc j < length ms" using Cons.prems(5) Suc by simp
    qed
    then show ?thesis using Suc by simp
  qed
qed

section \<open>Capacity\<close>

text \<open>
  Claim C4.  Capacity invariant: when no descriptor handed to \<open>packFiles\<close> has a size
  above the capacity, the sizes of the files of every block written add up to at most
  the capacity.  This holds of the sum as the code computes it, in \<open>int64\<close>; and the sum
  as a number is the same, hence within the capacity too, when no size is negative and
  the capacity is below \<open>2^62\<close>, so that no addition of the loop can wrap.
\<close>

theorem capacity_invariant:
  assumes "\<forall>f\<in>set files. sint (fi_Size f) \<le> sint cap"
    and "w \<in> set (fst (packFiles fs H cap files))"
  shows "sint (sum_list (map fm_Size (blk_Files (w_block w)))) \<le> sint cap \<and>
         (sint cap < 2 ^ 62 \<and> (\<forall>f\<in>set files. 0 \<le> sint (fi_Size f)) \<longrightarrow>
            trueSum (blk_Files (w_block w)) \<le> sint cap)"
proof (intro conjI impI)
  show "sint (sum_list (map fm_Size (blk_Files (w_block w)))) \<le> sint cap"
    using packLoop_within [OF assms(1) capInv_init, of fs H] assms(2)
    by (auto simp: packFiles_def within_def)
next
  assume a: "sint cap < 2 ^ 62 \<and> (\<forall>f\<in>set files. 0 \<le> sint (fi_Size f))"
  then have sz: "\<forall>f\<in>set files. 0 \<le> sint (fi_Size f) \<and> sint (fi_Size f) \<le> sint cap"
    using assms(1) by simp
  from a have cap: "sint cap < 2 ^ 62" by simp
  show "trueSum (blk_Files (w_block w)) \<le> sint cap"
    using packLoop_exact [OF cap sz exInv_init, of fs H] assms(2)
    by (auto simp: packFiles_def list_all_iff)
qed

theorem capacity_invariant_witness:
  "list_all (\<lambda>f. 0 \<le> sint (fi_Size f) \<and> sint (fi_Size f) \<le> sint (4 :: int64)) smallInfos \<and>
   sint (4 :: int64) < 2 ^ 62 \<and>
   length (fst (packFiles smallFs toyDigest 4 smallInfos)) = 2 \<and>
   list_all (\<lambda>w. sint (sum_list (map fm_Size (blk_Files (w_block w)))) \<le> sint (4 :: int64) \<and>
                 trueSum (blk_Files (w_block w)) \<le> sint (4 :: int64))
     (fst (packFiles smallFs toyDigest 4 smallInfos))"
proof -
  have h: "\<forall>f\<in>set smallInfos. sint (fi_Size f) \<le> sint (4 :: int64)"
    and h0: "\<forall>f\<in>set smallInfos. 0 \<le> sint (fi_Size f)"
    by (simp_all add: smallInfos_def mkInfo_def mkFile_def)
  have c: "sint (4 :: int64) < 2 ^ 62" by simp
  have l: "length (fst (packFiles smallFs toyDigest 4 smallInfos)) = 2"
    by (simp add: packFiles_def startNewIfFull_def addFileToBlock_def writeBlock_def newBlock_def
      smallInfos_def smallFs_def mkInfo_def mkFile_def Let_def)
  show ?thesis using h h0 c l capacity_invariant [OF h, of _ smallFs toyDigest]
    by (simp add: list_all_iff)
qed

section \<open>Offsets\<close>

lemma blk_ok_init: "blk_ok (newBlock n)"
  by (simp add: blk_ok_def newBlock_def)

lemma smallPack_files:
  "map (\<lambda>w. map (\<lambda>m. (fm_Path m, fm_Offset m, fm_Size m)) (blk_Files (w_block w)))
     (fst (packFiles smallFs toyDigest 4 smallInfos)) =
   [[([97], 0, 3)], [([98], 0, 2), ([99], 2, 2)]]"
  by (simp add: packFiles_def startNewIfFull_def addFileToBlock_def writeBlock_def newBlock_def
      smallInfos_def smallFs_def mkInfo_def mkFile_def Let_def)

text \<open>
  Claim C6.  Offset contiguity: in every block written by the packer the first record
  has offset 0 and every record starts where the record before it ends, that is
  \<open>record[i+1].offset = record[i].offset + record[i].size\<close> in \<open>int64\<close> arithmetic.
  When the sizes lie between 0 and a capacity below \<open>2^62\<close>, the equation holds of the
  offsets and sizes as numbers, so the offsets increase and the byte ranges of the
  records do not overlap.
\<close>

theorem offset_contiguity:
  assumes "w \<in> set (fst (packFiles fs H cap files))"
  shows "(blk_Files (w_block w) \<noteq> [] \<longrightarrow> fm_Offset (blk_Files (w_block w) ! 0) = 0) \<and>
         (\<forall>i. Suc i < length (blk_Files (w_block w)) \<longrightarrow>
            fm_Offset (blk_Files (w_block w) ! Suc i) =
              fm_Offset (blk_Files (w_block w) ! i) + fm_Size (blk_Files (w_block w) ! i)) \<and>
         (sint cap < 2 ^ 62 \<and>
          (\<forall>f\<in>set files. 0 \<le> sint (fi_Size f) \<and> sint (fi_Size f) \<le> sint cap) \<longrightarrow>
            (\<forall>i. Suc i < length (blk_Files (w_block w)) \<longrightarrow>
               sint (fm_Offset (blk_Files (w_block w) ! Suc i)) =
                 sint (fm_Offset (blk_Files (w_block w) ! i)) +
                 sint (fm_Size (blk_Files (w_block w) ! i)) \<and>
               sint (fm_Offset (blk_Files (w_block w) ! i)) \<le>
                 sint (fm_Offset (blk_Files (w_block w) ! Suc i))))"
proof -
  let ?F = "blk_Files (w_block w)"
  have "blk_ok (w_block w)"
    using packLoop_contig [OF blk_ok_init, of "[]" fs H cap files 1 1 0] assms
    by (simp add: packFiles_def)
  then have c: "contiguous 0 ?F" by (simp add: blk_ok_def)
  have mono: "sint (fm_Offset (?F ! Suc i)) = sint (fm_Offset (?F ! i)) + sint (fm_Size (?F ! i)) \<and>
              sint (fm_Offset (?F ! i)) \<le> sint (fm_Offset (?F ! Suc i))"
    if cap: "sint cap < 2 ^ 62"
      and sz: "\<forall>f\<in>set files. 0 \<le> sint (fi_Size f) \<and> sint (fi_Size f) \<le> sint cap"
      and i: "Suc i < length ?F" for i
  proof -
    have e: "exact ?F"
      using packLoop_exact [OF cap sz exInv_init, of fs H] assms
      by (auto simp: packFiles_def list_all_iff)
    then have nn: "list_all (\<lambda>m. 0 \<le> sint (fm_Size m)) ?F"
      and t: "trueSum ?F = sint (sum_list (map fm_Size ?F))"
      by (simp_all add: exact_def)
    have b: "sint (0 :: int64) + trueSum ?F < 2 ^ 63"
      using t sint_lt [of "sum_list (map fm_Size ?F)"] by simp
    have eq: "sint (fm_Offset (?F ! Suc i)) = sint (fm_Offset (?F ! i)) + sint (fm_Size (?F ! i))"
      by (rule contiguous_exact [OF c nn _ b i]) simp
    have "0 \<le> sint (fm_Size (?F ! i))" using nn i by (simp add: list_all_length)
    with eq show ?thesis by simp
  qed
  show ?thesis using contiguous_nth [OF c] mono by blast
qed

theorem offset_contiguity_witness:
  "list_all (\<lambda>f. 0 \<le> sint (fi_Size f) \<and> sint (fi_Size f) \<le> sint (4 :: int64)) smallInfos \<and>
   sint (4 :: int64) < 2 ^ 62 \<and>
   length (fst (packFiles smallFs toyDigest 4 smallInfos)) = 2 \<and>
   map fm_Offset (blk_Files (w_block (fst (packFiles smallFs toyDigest 4 smallInfos) ! 1))) = [0, 2] \<and>
   map fm_Size (blk_Files (w_block (fst (packFiles smallFs toyDigest 4 smallInfos) ! 1))) = [2, 2] \<and>
   fm_Offset (blk_Files (w_block (fst (packFiles smallFs toyDigest 4 smallInfos) ! 1)) ! Suc 0) =
     fm_Offset (blk_Files (w_block (fst (packFiles smallFs toyDigest 4 smallInfos) ! 1)) ! 0) +
     fm_Size (blk_Files (w_block (fst (packFiles smallFs toyDigest 4 smallInfos) ! 1)) ! 0) \<and>
   sint (fm_Offset (blk_Files (w_block (fst (packFiles smallFs toyDigest 4 smallInfos) ! 1)) ! 0)) \<le>
     sint (fm_Offset (blk_Files (w_block (fst (packFiles smallFs toyDigest 4 smallInfos) ! 1)) ! Suc 0))"
proof -
  let ?ws = "fst (packFiles smallFs toyDigest 4 smallInfos)"
  have h: "\<forall>f\<in>set smallInfos. 0 \<le> sint (fi_Size f) \<and> sint (fi_Size f) \<le> sint (4 :: int64)"
    by (simp add: smallInfos_def mkInfo_def mkFile_def)
  have c: "sint (4 :: int64) < 2 ^ 62" by simp
  have l: "length ?ws = 2" using arg_cong [OF smallPack_files, of length] by simp
  then have m: "?ws ! 1 \<in> set ?ws" by simp
  have f: "map (\<lambda>m. (fm_Path m, fm_Offset m, fm_Size m)) (blk_Files (w_block (?ws ! 1))) = [([98], 0, 2), ([99], 2, 2)]"
    using arg_cong [OF smallPack_files, of "\<lambda>xs. xs ! 1"] l by simp
  have o: "map fm_Offset (blk_Files (w_block (?ws ! 1))) = [0, 2]"
    using arg_cong [OF f, of "map (fst \<circ> snd)"] by (simp add: comp_def)
  have s: "map fm_Size (blk_Files (w_block (?ws ! 1))) = [2, 2]"
    using arg_cong [OF f, of "map (snd \<circ> snd)"] by (simp add: comp_def)
  have i: "Suc 0 < length (blk_Files (w_block (?ws ! 1)))"
    using arg_cong [OF o, of length] by simp
  note t = offset_contiguity [OF m]
  note t2 = t [THEN conjunct2, THEN conjunct1, rule_format, OF i]
  note t3 = t [THEN conjunct2, THEN conjunct2, rule_format, OF conjI [OF c h] i]
  show ?thesis using t2 t3 h c l o s by (simp add: list_all_iff)
qed

section \<open>No empty block\<close>

text \<open>
  Claim C10.  For a non-empty sequence of descriptors, none larger than the capacity,
  every block file written holds at least one file record; when the run ends without an
  error the blocks written hold all the files in the order given, so the last, partly
  filled block has been written; and the run ends without an error when every file can
  be opened.
\<close>

theorem no_empty_block:
  assumes "files \<noteq> []" and "\<forall>f\<in>set files. sint (fi_Size f) \<le> sint cap"
  shows "(\<forall>w\<in>set (fst (packFiles fs H cap files)). blk_Files (w_block w) \<noteq> []) \<and>
         (snd (packFiles fs H cap files) = None \<longrightarrow>
            fst (packFiles fs H cap files) \<noteq> [] \<and>
            placed (fst (packFiles fs H cap files)) = map fi_Path files) \<and>
         ((\<forall>f\<in>set files. fs (fi_Path f) \<noteq> None) \<longrightarrow> snd (packFiles fs H cap files) = None)"
proof (intro conjI impI)
  show "\<forall>w\<in>set (fst (packFiles fs H cap files)). blk_Files (w_block w) \<noteq> []"
    using packLoop_within [OF assms(2) capInv_init, of fs H]
    by (auto simp: packFiles_def within_def)
next
  assume n: "snd (packFiles fs H cap files) = None"
  then have "packLoop fs H cap files (1, newBlock 1, 0, []) = (fst (packFiles fs H cap files), None)"
    by (simp add: packFiles_def prod_eq_iff)
  from packLoop_placed [OF assms(1) this]
  show p: "placed (fst (packFiles fs H cap files)) = map fi_Path files"
    by (simp add: placed_def newBlock_def)
  show "fst (packFiles fs H cap files) \<noteq> []"
    using p assms(1) by (auto simp: placed_def)
next
  assume "\<forall>f\<in>set files. fs (fi_Path f) \<noteq> None"
  then show "snd (packFiles fs H cap files) = None"
    using packLoop_no_error [of files fs "newBlock 1" H cap 1 0 "[]"]
    by (simp add: packFiles_def newBlock_def)
qed

theorem no_empty_block_witness:
  "smallInfos \<noteq> [] \<and> list_all (\<lambda>f. sint (fi_Size f) \<le> sint (4 :: int64)) smallInfos \<and>
   list_all (\<lambda>f. smallFs (fi_Path f) \<noteq> None) smallInfos \<and>
   list_all (\<lambda>w. blk_Files (w_block w) \<noteq> []) (fst (packFiles smallFs toyDigest 4 smallInfos)) \<and>
   snd (packFiles smallFs toyDigest 4 smallInfos) = None \<and>
   placed (fst (packFiles smallFs toyDigest 4 smallInfos)) = [[97], [98], [99]]"
proof -
  have a: "smallInfos \<noteq> []" by (simp add: smallInfos_def)
  have b: "\<forall>f\<in>set smallInfos. sint (fi_Size f) \<le> sint (4 :: int64)"
    by (simp add: smallInfos_def mkInfo_def mkFile_def)
  have c: "\<forall>f\<in>set smallInfos. smallFs (fi_Path f) \<noteq> None"
    by (simp add: smallInfos_def mkInfo_def smallFs_def)
  have d: "map fi_Path smallInfos = [[97], [98], [99]]"
    by (simp add: smallInfos_def mkInfo_def)
  show ?thesis
    using a b c d no_empty_block [OF a b, of smallFs toyDigest]
    by (simp add: list_all_iff)
qed

section \<open>The scenario of 40, 30, 25 and 5 MB\<close>

text \<open>
  Claim C7.  With a capacity of 60 MB and files of 25, 40, 5 and 30 MB discovered in this
  order, any sorter that meets the contract of \<open>sort.Slice\<close> hands \<open>packFiles\<close> the order
  40, 30, 25, 5, and \<open>Pack\<close> writes exactly two blocks: block 1 with the 40 MB file alone
  and block 2 with the 30 MB, 25 MB and 5 MB files.
\<close>

theorem concrete_scenario:
  assumes c: "sortContract srt"
    and fs: "fs [1] = Some a" "fs [2] = Some b" "fs [3] = Some c" "fs [4] = Some d"
    and sz: "length (f_data a) = 25 * 1024 * 1024" "length (f_data b) = 40 * 1024 * 1024"
            "length (f_data c) = 5 * 1024 * 1024" "length (f_data d) = 30 * 1024 * 1024"
  shows "srt [mkInfo [1] a, mkInfo [2] b, mkInfo [3] c, mkInfo [4] d]
           = [mkInfo [2] b, mkInfo [4] d, mkInfo [1] a, mkInfo [3] c]
       \<and> snd (Pack fs H srt (60 * 1024 * 1024) [[1], [2], [3], [4]]) = None
       \<and> map (\<lambda>w. (w_num w, map (\<lambda>m. (fm_Path m, fm_Size m)) (blk_Files (w_block w))))
            (fst (Pack fs H srt (60 * 1024 * 1024) [[1], [2], [3], [4]]))
          = [(1, [([2], 40 * 1024 * 1024)]),
             (2, [([4], 30 * 1024 * 1024), ([1], 25 * 1024 * 1024), ([3], 5 * 1024 * 1024)])]"
proof -
  let ?xs = "[mkInfo [1] a, mkInfo [2] b, mkInfo [3] c, mkInfo [4] d]"
  let ?ys = "[mkInfo [2] b, mkInfo [4] d, mkInfo [1] a, mkInfo [3] c]"
  have srt: "srt ?xs = ?ys"
    by (rule sorted_unique [OF c]) (simp_all add: sizeDescending_def mkInfo_def sz)
  have col: "collectFileInfo fs 62914560 [[1], [2], [3], [4]] = Inr ?xs"
    by (simp add: fs sz mkInfo_def)
  have "Pack fs H srt 62914560 [[1], [2], [3], [4]] = packFiles fs H 62914560 ?ys"
    unfolding Pack_def col using srt by simp
  moreover have "snd (packFiles fs H 62914560 ?ys) = None"
    by (simp add: packFiles_def startNewIfFull_def addFileToBlock_def writeBlock_def newBlock_def
        mkInfo_def Let_def fs sz)
  moreover have "map (\<lambda>w. (w_num w, map (\<lambda>m. (fm_Path m, fm_Size m)) (blk_Files (w_block w))))
      (fst (packFiles fs H 62914560 ?ys))
      = [(1, [([2], 41943040)]), (2, [([4], 31457280), ([1], 26214400), ([3], 5242880)])]"
    by (simp add: packFiles_def startNewIfFull_def addFileToBlock_def writeBlock_def newBlock_def
        mkInfo_def Let_def fs sz)
  ultimately show ?thesis using srt by simp
qed

theorem concrete_scenario_witness:
  "sortContract insertionSort \<and>
   map (\<lambda>p. map_option (\<lambda>f. length (f_data f)) (bigFs p)) [[1], [2], [3], [4]] =
     [Some (25 * 1024 * 1024), Some (40 * 1024 * 1024), Some (5 * 1024 * 1024), Some (30 * 1024 * 1024)] \<and>
   snd (Pack bigFs toyDigest insertionSort (60 * 1024 * 1024) [[1], [2], [3], [4]]) = None \<and>
   map (\<lambda>w. (w_num w, map (\<lambda>m. (fm_Path m, fm_Size m)) (blk_Files (w_block w))))
            (fst (Pack bigFs toyDigest insertionSort (60 * 1024 * 1024) [[1], [2], [3], [4]]))
          = [(1, [([2], 40 * 1024 * 1024)]),
             (2, [([4], 30 * 1024 * 1024), ([1], 25 * 1024 * 1024), ([3], 5 * 1024 * 1024)])]"
proof -
  have f: "bigFs [1] = Some (mkFile (replicate (25 * 1024 * 1024) 0))"
    "bigFs [2] = Some (mkFile (replicate (40 * 1024 * 1024) 0))"
    "bigFs [3] = Some (mkFile (replicate (5 * 1024 * 1024) 0))"
    "bigFs [4] = Some (mkFile (replicate (30 * 1024 * 1024) 0))"
    by (simp_all add: bigFs_def)
  have l: "length (f_data (mkFile (replicate (25 * 1024 * 1024) 0))) = 25 * 1024 * 1024"
    "length (f_data (mkFile (replicate (40 * 1024 * 1024) 0))) = 40 * 1024 * 1024"
    "length (f_data (mkFile (replicate (5 * 1024 * 1024) 0))) = 5 * 1024 * 1024"
    "length (f_data (mkFile (replicate (30 * 1024 * 1024) 0))) = 30 * 1024 * 1024"
    by (simp_all add: mkFile_def)
  have m: "map (\<lambda>p. map_option (\<lambda>f. length (f_data f)) (bigFs p)) [[1], [2], [3], [4]] =
     [Some (25 * 1024 * 1024), Some (40 * 1024 * 1024), Some (5 * 1024 * 1024), Some (30 * 1024 * 1024)]"
    using f l by simp
  show ?thesis
    using concrete_scenario [OF sortContract_insertionSort f l, of toyDigest] m
      sortContract_insertionSort
    by simp
qed


section \<open>Validation of a written block\<close>

lemma length_le_bytes [simp]: "length (le_bytes n w) = n"
  by (induction n arbitrary: w) auto

lemma length_le32 [simp]: "length (le32 w) = 4"
  by (simp add: le32_def)

lemma length_le64 [simp]: "length (le64 w) = 8"
  by (simp add: le64_def)

lemma le_word_le_bytes: "le_word (le_bytes n w) = take_bit (8 * n) w"
proof (induction n arbitrary: w)
  case 0 then show ?case by simp
next
  case (Suc n)
  show ?case
    apply (simp add: Suc)
    apply (rule bit_eqI)
    apply (auto simp add: bit_simps)
    done
qed

lemma le32_roundtrip: "le_word (le32 w) = w"
  unfolding le32_def le_word_le_bytes
  by (simp add: take_bit_word_eq_self)

lemma le64_roundtrip: "le_word (le64 w) = w"
  unfolding le64_def le_word_le_bytes
  by (simp add: take_bit_word_eq_self)

lemma ChecksumsEqual_iff: "ChecksumsEqual a b \<longleftrightarrow> a = b"
proof (cases "length a = length b")
  case True
  then have "list_all (\<lambda>(av, bv). av = bv) (zip a b) \<longleftrightarrow> a = b"
    by (induction a b rule: list_induct2) auto
  with True show ?thesis by (simp add: ChecksumsEqual_def)
next
  case False
  then show ?thesis by (auto simp: ChecksumsEqual_def)
qed

lemma ValidateBlock_footer:
  assumes "length (H body) = 32" and "4 \<le> length body"
  shows "ValidateBlock H (body @ H body) = None"
  using assms
  by (simp add: ValidateBlock_def binaryRead32_def readFull_def ChecksumsEqual_iff Let_def)

lemma ValidateBlock_char:
  "ValidateBlock H f =
     (if length f < 4 then Some (if f = [] then EOF else ErrUnexpectedEOF)
      else if length f < 32 then Some SeekError
      else if drop (length f - 32) f \<noteq> H (take (length f - 32) f)
        then Some (BlockIntegrityError (le_word (take 4 f)) (drop (length f - 32) f)
                     (H (take (length f - 32) f)))
      else None)"
  by (simp add: ValidateBlock_def binaryRead32_def readFull_def ChecksumsEqual_iff Let_def)

text \<open>
  Claim C9.  Encode, then validate: the last 32 bytes of a block file written by
  \<open>writeBlock\<close> are the digest of all the bytes before them, and \<open>ValidateBlock\<close> accepts
  the file.  \<open>ValidateBlock\<close> accepts a file \<open>f\<close> exactly when \<open>f\<close> has at least 32
  bytes and its last 32 bytes are the digest of the bytes \<open>[0, length - 32)\<close>; when they
  are not, it returns the block-integrity error with the block id read from the first
  four bytes, the stored digest and the digest computed.  The digest function is any
  function with 32-byte results, as SHA-256 is.
\<close>

theorem encode_then_validate:
  assumes "\<forall>x. length (H x) = 32" and "writeBlock fs H block blockNum = Inr bytes"
  shows "drop (length bytes - 32) bytes = H (take (length bytes - 32) bytes) \<and>
         ValidateBlock H bytes = None \<and>
         (ValidateBlock H f = None \<longleftrightarrow>
            32 \<le> length f \<and> drop (length f - 32) f = H (take (length f - 32) f)) \<and>
         (32 \<le> length f \<and> drop (length f - 32) f \<noteq> H (take (length f - 32) f) \<longrightarrow>
            ValidateBlock H f =
              Some (BlockIntegrityError (le_word (take 4 f)) (drop (length f - 32) f)
                      (H (take (length f - 32) f))))"
proof -
  from assms(2) obtain payload where
    b: "bytes = (blockHeader block blockNum @ payload) @ H (blockHeader block blockNum @ payload)"
    by (auto simp: writeBlock_def Let_def split: sum.splits)
  let ?body = "blockHeader block blockNum @ payload"
  have l: "length (H ?body) = 32" using assms(1) by simp
  have "4 \<le> length ?body" by (simp add: blockHeader_def)
  from ValidateBlock_footer [of H ?body, OF l this] l
  have "drop (length bytes - 32) bytes = H (take (length bytes - 32) bytes) \<and>
         ValidateBlock H bytes = None" unfolding b by simp
  then show ?thesis by (auto simp: ValidateBlock_char [of H f])
qed

theorem encode_then_validate_witness:
  "\<not> isl (writeBlock smallFs toyDigest exBlock 1) \<and>
   ValidateBlock toyDigest (projr (writeBlock smallFs toyDigest exBlock 1)) = None \<and>
   32 \<le> length (exBytes2[0 := 255]) \<and>
   drop (length (exBytes2[0 := 255]) - 32) (exBytes2[0 := 255]) \<noteq>
     toyDigest (take (length (exBytes2[0 := 255]) - 32) (exBytes2[0 := 255])) \<and>
   ValidateBlock toyDigest (exBytes2[0 := 255]) =
     Some (BlockIntegrityError 255 (drop (length (exBytes2[0 := 255]) - 32) (exBytes2[0 := 255]))
       (toyDigest (take (length (exBytes2[0 := 255]) - 32) (exBytes2[0 := 255]))))"
proof -
  have n: "\<not> isl (writeBlock smallFs toyDigest exBlock 1)"
    by (simp add: writeBlock_def smallFs_def exBlock_def Let_def)
  then have w: "writeBlock smallFs toyDigest exBlock 1 = Inr (projr (writeBlock smallFs toyDigest exBlock 1))"
    by (cases "writeBlock smallFs toyDigest exBlock 1") auto
  have t: "\<forall>x. length (toyDigest x) = 32" by (simp add: toyDigest_length)
  let ?f = "exBytes2[0 := 255]"
  have c: "32 \<le> length ?f \<and> drop (length ?f - 32) ?f \<noteq> toyDigest (take (length ?f - 32) ?f)"
    by code_simp
  have i: "(le_word (take 4 ?f) :: int32) = 255" by code_simp
  note th = encode_then_validate [OF t w, of ?f]
  show ?thesis
    using n th [THEN conjunct2, THEN conjunct1]
      th [THEN conjunct2, THEN conjunct2, THEN conjunct2, rule_format, OF c] c i
    by simp
qed

section \<open>\<open>Pack\<close> when nothing is eligible\<close>

lemma sortContract_Nil: "sortContract srt \<Longrightarrow> srt [] = []"
  by (auto simp: sortContract_def dest: spec [of _ "[]"])

lemma collectFileInfo_oversized:
  "\<forall>p\<in>set files. \<exists>f. fs p = Some f \<and> sint cap < sint (of_nat (length (f_data f)) :: int64) \<Longrightarrow>
   collectFileInfo fs cap files = Inr []"
  by (induction files) auto

text \<open>
  Claim C8, as the code has it.  \<open>Pack\<close> tests the list of walked files, before the
  files above the capacity are skipped: it fails with an error when the walk finds no
  file at all, and when files are found but every one of them is above the capacity it
  returns no error and writes no block.
\<close>

theorem pack_nothing_eligible:
  assumes "sortContract srt"
    and "\<forall>p\<in>set files. \<exists>f. fs p = Some f \<and> sint cap < sint (of_nat (length (f_data f)) :: int64)"
  shows "Pack fs H srt cap files = (if files = [] then ([], Some NoFilesFound) else ([], None))"
  using collectFileInfo_oversized [OF assms(2)] sortContract_Nil [OF assms(1)]
  by (simp add: Pack_def packFiles_def)

theorem pack_nothing_eligible_witness:
  "sortContract insertionSort \<and>
   list_all (\<lambda>p. \<exists>f. smallFs p = Some f \<and> sint (1 :: int64) < sint (of_nat (length (f_data f)) :: int64))
     [[97], [98], [99]] \<and>
   Pack smallFs toyDigest insertionSort 1 [[97], [98], [99]] = ([], None) \<and>
   Pack smallFs toyDigest insertionSort 1 [] = ([], Some NoFilesFound)"
proof -
  have a: "\<forall>p\<in>set [[97], [98], [99]]. \<exists>f. smallFs p = Some f \<and> sint (1 :: int64) < sint (of_nat (length (f_data f)) :: int64)"
    by (simp add: smallFs_def mkFile_def)
  have b: "\<forall>p\<in>set []. \<exists>f. smallFs p = Some f \<and> sint (1 :: int64) < sint (of_nat (length (f_data f)) :: int64)"
    by simp
  show ?thesis
    using pack_nothing_eligible [OF sortContract_insertionSort a, of toyDigest]
      pack_nothing_eligible [OF sortContract_insertionSort b, of toyDigest]
      a sortContract_insertionSort
    by (simp add: list_all_iff)
qed

text \<open>
  Three files of 3, 2 and 2 bytes with a capacity of one byte: nothing is eligible, and
  \<open>Pack\<close> returns no error.
\<close>

theorem pack_nothing_eligible_counterexample:
  "collectFileInfo smallFs 1 [[97], [98], [99]] = Inr [] \<and>
   Pack smallFs toyDigest insertionSort 1 [[97], [98], [99]] = ([], None)"
  by (simp add: Pack_def packFiles_def smallFs_def mkFile_def insertionSort_def)

section \<open>Decoding what was encoded\<close>

lemma sint_of_nat_32: "n < 2 ^ 31 \<Longrightarrow> sint (of_nat n :: 32 word) = int n"
  by (simp add: signed_of_nat signed_take_bit_int_eq_self)

lemma sint_of_nat_64: "n < 2 ^ 63 \<Longrightarrow> sint (of_nat n :: 64 word) = int n"
  by (simp add: signed_of_nat signed_take_bit_int_eq_self)

lemma binaryRead32_le32: "binaryRead32 (le32 w @ r) = Inr (w, r)"
  by (simp add: binaryRead32_def readFull_def le32_roundtrip)

lemma binaryRead64_le64: "binaryRead64 (le64 w @ r) = Inr (w, r)"
  by (simp add: binaryRead64_def readFull_def le64_roundtrip)

lemma fileRead_exact: "fileRead (length p) (p @ r) = Inr (p, r)"
  by (simp add: fileRead_def)

lemma readMetadata_writeMetadata:
  assumes "length (fm_Path m) < 2 ^ 31" and "length (fm_Checksum m) = 32"
    and "int (length (fm_Path m)) \<le> mem"
  shows "readMetadata mem (writeMetadata m @ r) = Inr (strip m, r)"
proof -
  have s: "sint (of_nat (length (fm_Path m)) :: 32 word) = int (length (fm_Path m))"
    using assms(1) by (rule sint_of_nat_32)
  have c: "fileRead 32 (fm_Checksum m @ r) = Inr (fm_Checksum m, r)"
    using fileRead_exact [of "fm_Checksum m" r] assms(2) by simp
  have mk: "makeSlice mem 1 (int (length (fm_Path m))) = None"
    using assms(3) by (simp add: makeSlice_def)
  show ?thesis
    by (simp add: readMetadata_def writeMetadata_def binaryRead32_le32 binaryRead64_le64 s mk
        fileRead_exact c strip_def)
qed

lemma readRecords_writeMetadata:
  assumes "\<forall>m\<in>set ms. length (fm_Path m) < 2 ^ 31 \<and> length (fm_Checksum m) = 32 \<and>
             int (length (fm_Path m)) \<le> mem"
  shows "readRecords mem (length ms) (concat (map writeMetadata ms) @ r) = Inr (map strip ms, r)"
  using assms by (induction ms) (simp_all add: readMetadata_writeMetadata)

lemma decodeBlock_blockHeader:
  assumes "\<forall>m\<in>set (blk_Files b). length (fm_Path m) < 2 ^ 31 \<and> length (fm_Checksum m) = 32 \<and>
             int (length (fm_Path m)) \<le> mem"
    and "length (blk_Files b) < 2 ^ 31" and "recordSize * int (length (blk_Files b)) \<le> mem"
  shows "decodeBlock mem (blockHeader b n @ r) = Inr (map strip (blk_Files b), r)"
proof -
  have mk: "makeSlice mem recordSize (int (length (blk_Files b))) = None"
    using assms(3) by (simp add: makeSlice_def)
  show ?thesis
    using readRecords_writeMetadata [OF assms(1), of r] sint_of_nat_32 [OF assms(2)] mk
    by (simp add: decodeBlock_def blockHeader_def binaryRead32_le32)
qed

lemma writeContents_data:
  "\<forall>m\<in>set ms. fs (fm_Path m) \<noteq> None \<Longrightarrow>
   writeContents fs ms = Inr (concat (map (payloadOf fs) ms))"
  by (induction ms) (auto simp: payloadOf_def)

lemma extractFile_exact:
  assumes "fm_Size m = of_nat (length d)" and "length d < 2 ^ 63"
    and "\<not> e_fails env MkdirAll (fm_Path m)" and "\<not> e_fails env OpenFile (fm_Path m)"
  shows "extractFile env H out (d @ r) m =
     (if H d \<noteq> fm_Checksum m
        then (leftAfterCopy env out m d, Some (ChecksumMismatch (fm_Path m)), r)
      else if e_fails env Chtimes (fm_Path m)
        then (leftAfterCopy env out m d, Some (ChtimesError (fm_Path m)), r)
      else (extracted env out m d, None, r))"
proof -
  have s: "sint (fm_Size m) = int (length d)"
    using assms by (simp add: sint_of_nat_64)
  show ?thesis
    using assms(3,4) by (cases "d = []") (simp_all add: extractFile_def s Let_def)
qed

lemma extractFile_recordOK:
  assumes "recordOK fs H m" and "noFailure env [m]"
  shows "extractFile env H out (payloadOf fs m @ r) (strip m) =
           (extracted env out (strip m) (payloadOf fs m), None, r)"
proof -
  from assms obtain f where f: "fs (fm_Path m) = Some f"
    and ok: "fm_Size m = of_nat (length (f_data f))" "length (f_data f) < 2 ^ 63"
      "fm_Checksum m = H (f_data f)"
    by (auto simp: recordOK_def split: option.splits)
  have sz: "fm_Size (strip m) = of_nat (length (f_data f))" using ok by (simp add: strip_def)
  have nf: "\<not> e_fails env MkdirAll (fm_Path (strip m))" "\<not> e_fails env OpenFile (fm_Path (strip m))"
    "\<not> e_fails env Chtimes (fm_Path (strip m))"
    using assms(2) by (simp_all add: noFailure_def strip_def)
  from extractFile_exact [OF sz ok(2) nf(1,2), of H out r] show ?thesis
    using ok f nf(3) by (simp add: strip_def payloadOf_def)
qed

lemma extractAll_recordOK:
  assumes "\<forall>m\<in>set ms. recordOK fs H m" and "noFailure env ms"
  shows "extractAll env H out (map strip ms) (concat (map (payloadOf fs) ms) @ r) =
           (restoreAll env fs out ms, None)"
  using assms
proof (induction ms arbitrary: out)
  case Nil then show ?case by simp
next
  case (Cons m ms)
  have "noFailure env [m]" "noFailure env ms" using Cons.prems(2) by (simp_all add: noFailure_def)
  then show ?case using Cons by (simp add: extractFile_recordOK)
qed

lemma recordOK_exists: "recordOK fs H m \<Longrightarrow> fs (fm_Path m) \<noteq> None"
  by (auto simp: recordOK_def split: option.splits)

lemma recordOK_decodable:
  "\<forall>x. length (H x) = 32 \<Longrightarrow> recordOK fs H m \<Longrightarrow>
   length (fm_Path m) < 2 ^ 31 \<and> length (fm_Checksum m) = 32"
  by (auto simp: recordOK_def split: option.splits)

lemma extractAll_corrupted:
  assumes "\<forall>m\<in>set ms1. recordOK fs H m" and "noFailure env ms1"
    and "fm_Size m = of_nat (length d')" and "length d' < 2 ^ 63" and "H d' \<noteq> fm_Checksum m"
    and "\<not> e_fails env MkdirAll (fm_Path m)" and "\<not> e_fails env OpenFile (fm_Path m)"
  shows "extractAll env H out (map strip (ms1 @ m # ms2)) (concat (map (payloadOf fs) ms1) @ d' @ r) =
           (leftAfterCopy env (restoreAll env fs out ms1) (strip m) d',
            Some (ChecksumMismatch (fm_Path m)))"
  using assms(1,2)
proof (induction ms1 arbitrary: out)
  case Nil
  have "fm_Size (strip m) = of_nat (length d')" using assms(3) by (simp add: strip_def)
  from extractFile_exact [OF this assms(4), of env H out r] assms(5,6,7)
  show ?case by (simp add: strip_def)
next
  case (Cons a ms1)
  have "noFailure env [a]" "noFailure env ms1" using Cons.prems(2) by (simp_all add: noFailure_def)
  then show ?case using Cons by (simp add: extractFile_recordOK)
qed

section \<open>A corrupted file in a block\<close>

lemma restoreAll_other:
  "p \<notin> fm_Path ` set ms \<Longrightarrow> restoreAll env fs out ms p = out p"
  by (induction ms arbitrary: out) (auto simp: extracted_def strip_def)

lemma leftAfterCopy_other: "p \<noteq> fm_Path m \<Longrightarrow> leftAfterCopy env out m d p = out p"
  by (simp add: leftAfterCopy_def)

lemma restoreAll_fresh:
  "distinct (map fm_Path ms) \<Longrightarrow> \<forall>m\<in>set ms. out (fm_Path m) = None \<Longrightarrow> m \<in> set ms \<Longrightarrow>
   restoreAll env fs out ms (fm_Path m) =
     Some \<lparr>f_data = payloadOf fs m, f_mode = createMode (e_umask env) (fm_Mode m),
           f_mtime = time_Unix (t_sec (fm_ModTime m)) 0\<rparr>"
proof (induction ms arbitrary: out)
  case Nil then show ?case by simp
next
  case (Cons a ms)
  let ?out1 = "extracted env out (strip a) (payloadOf fs a)"
  have a: "fm_Path a \<notin> fm_Path ` set ms" using Cons.prems(1) by simp
  show ?case
  proof (cases "m = a")
    case True
    have "restoreAll env fs ?out1 ms (fm_Path a) = ?out1 (fm_Path a)"
      using a by (rule restoreAll_other)
    also have "\<dots> = Some \<lparr>f_data = payloadOf fs a, f_mode = createMode (e_umask env) (fm_Mode a),
           f_mtime = time_Unix (t_sec (fm_ModTime a)) 0\<rparr>"
      using Cons.prems(2) by (simp add: extracted_def openDest_def copied_def strip_def)
    finally show ?thesis using True by simp
  next
    case False
    then have m: "m \<in> set ms" using Cons.prems(3) by simp
    have "\<forall>m\<in>set ms. ?out1 (fm_Path m) = None"
    proof
      fix m' assume m': "m' \<in> set ms"
      then have "fm_Path m' \<noteq> fm_Path a" using a by (metis imageI)
      then show "?out1 (fm_Path m') = None"
        using Cons.prems(2) m' by (simp add: extracted_def strip_def)
    qed
    from Cons.IH [OF _ this m] Cons.prems(1) show ?thesis by simp
  qed
qed

lemma concat_update:
  "k < length xs \<Longrightarrow> concat (xs[k := y]) = concat (take k xs) @ y @ concat (drop (Suc k) xs)"
  by (simp add: upd_conv_take_nth_drop)

lemma UnpackBlock_corrupted:
  assumes H: "\<forall>x. length (H x) = 32"
    and ok: "\<forall>m\<in>set (blk_Files b). recordOK fs H m"
    and n: "length (blk_Files b) < 2 ^ 31"
    and k: "k < length (blk_Files b)"
    and d': "length d' = length (payloadOf fs (blk_Files b ! k))"
            "H d' \<noteq> H (payloadOf fs (blk_Files b ! k))"
    and mem: "recordSize * int (length (blk_Files b)) \<le> e_mem env"
             "\<forall>m\<in>set (blk_Files b). int (length (fm_Path m)) \<le> e_mem env"
    and calls: "noFailure env (take k (blk_Files b))"
               "\<not> e_fails env MkdirAll (fm_Path (blk_Files b ! k))"
               "\<not> e_fails env OpenFile (fm_Path (blk_Files b ! k))"
  shows "UnpackBlock env False H out
           (blockHeader b num @ concat ((map (payloadOf fs) (blk_Files b))[k := d']) @ t) =
         (leftAfterCopy env (restoreAll env fs out (take k (blk_Files b)))
            (strip (blk_Files b ! k)) d',
          Some (ChecksumMismatch (fm_Path (blk_Files b ! k))))"
proof -
  let ?ms = "blk_Files b"
  let ?m = "?ms ! k"
  let ?ms1 = "take k ?ms"
  let ?ms2 = "drop (Suc k) ?ms"
  have ms: "?ms = ?ms1 @ ?m # ?ms2" using k by (simp add: id_take_nth_drop [symmetric])
  have mk: "recordOK fs H ?m" using ok k by simp
  then obtain f where f: "fs (fm_Path ?m) = Some f" "fm_Size ?m = of_nat (length (f_data f))"
      "length (f_data f) < 2 ^ 63" "fm_Checksum ?m = H (f_data f)"
    by (auto simp: recordOK_def split: option.splits)
  have p: "payloadOf fs ?m = f_data f" using f by (simp add: payloadOf_def)
  have sz: "fm_Size ?m = of_nat (length d')" and lt: "length d' < 2 ^ 63"
    and ne: "H d' \<noteq> fm_Checksum ?m"
    using d' f p by simp_all
  have ok1: "\<forall>m\<in>set ?ms1. recordOK fs H m" using ok by (auto dest: in_set_takeD)
  have pay: "concat ((map (payloadOf fs) ?ms)[k := d']) =
             concat (map (payloadOf fs) ?ms1) @ d' @ concat (map (payloadOf fs) ?ms2)"
    using k by (simp add: concat_update take_map drop_map)
  let ?r = "concat (map (payloadOf fs) ?ms2) @ t"
  have "\<forall>m\<in>set ?ms. length (fm_Path m) < 2 ^ 31 \<and> length (fm_Checksum m) = 32 \<and>
          int (length (fm_Path m)) \<le> e_mem env"
    using recordOK_decodable [OF H] ok mem(2) by blast
  from decodeBlock_blockHeader [OF this n mem(1), of num "concat ((map (payloadOf fs) ?ms)[k := d']) @ t"]
  have dec: "decodeBlock (e_mem env) (blockHeader b num @ concat ((map (payloadOf fs) ?ms)[k := d']) @ t) =
             Inr (map strip ?ms, concat (map (payloadOf fs) ?ms1) @ d' @ ?r)"
    by (simp add: pay)
  have "extractAll env H out (map strip ?ms) (concat (map (payloadOf fs) ?ms1) @ d' @ ?r) =
        (leftAfterCopy env (restoreAll env fs out ?ms1) (strip ?m) d',
         Some (ChecksumMismatch (fm_Path ?m)))"
    using extractAll_corrupted [OF ok1 calls(1) sz lt ne calls(2,3), of out ?ms2 ?r] ms by simp
  with dec show ?thesis by (simp add: UnpackBlock_def)
qed

text \<open>
  Claim C5, as the code has it.  Verification before extraction is disabled.  In a block
  file written by \<open>writeBlock\<close>, the payload bytes of the file at position \<open>k\<close> are
  replaced by as many other bytes with another digest; the runtime can allocate the
  records, and the calls on the destinations up to position \<open>k\<close> succeed.  Then
  \<open>UnpackBlock\<close> extracts the files before position \<open>k\<close>, fails on the file at
  position \<open>k\<close> with a checksum mismatch that names its path, after having written the
  corrupted bytes, and stops: no path other than those of the first \<open>k + 1\<close> records is
  touched, so the files after position \<open>k\<close> are not extracted.  Into destinations that
  were not there, the files before position \<open>k\<close> come out with the bytes of the source.
\<close>

theorem corrupted_file_extraction:
  assumes H: "\<forall>x. length (H x) = 32"
    and ok: "\<forall>m\<in>set (blk_Files b). recordOK fs H m"
    and n: "length (blk_Files b) < 2 ^ 31"
    and k: "k < length (blk_Files b)"
    and d': "length d' = length (payloadOf fs (blk_Files b ! k))"
            "H d' \<noteq> H (payloadOf fs (blk_Files b ! k))"
    and mem: "recordSize * int (length (blk_Files b)) \<le> e_mem env"
             "\<forall>m\<in>set (blk_Files b). int (length (fm_Path m)) \<le> e_mem env"
    and calls: "noFailure env (take k (blk_Files b))"
               "\<not> e_fails env MkdirAll (fm_Path (blk_Files b ! k))"
               "\<not> e_fails env OpenFile (fm_Path (blk_Files b ! k))"
    and res: "res = UnpackBlock env False H out
                (blockHeader b num @ concat ((map (payloadOf fs) (blk_Files b))[k := d']) @ t)"
  shows "(\<exists>footer. writeBlock fs H b num =
            Inr (blockHeader b num @ concat (map (payloadOf fs) (blk_Files b)) @ footer)) \<and>
         res = (leftAfterCopy env (restoreAll env fs out (take k (blk_Files b)))
                  (strip (blk_Files b ! k)) d',
                Some (ChecksumMismatch (fm_Path (blk_Files b ! k)))) \<and>
         (\<forall>p. p \<notin> fm_Path ` set (take (Suc k) (blk_Files b)) \<longrightarrow> fst res p = out p) \<and>
         (distinct (map fm_Path (take (Suc k) (blk_Files b))) \<and>
          (\<forall>m\<in>set (take (Suc k) (blk_Files b)). out (fm_Path m) = None) \<longrightarrow>
            (\<forall>i<k. fst res (fm_Path (blk_Files b ! i)) =
               Some \<lparr>f_data = payloadOf fs (blk_Files b ! i),
                     f_mode = createMode (e_umask env) (fm_Mode (blk_Files b ! i)),
                     f_mtime = time_Unix (t_sec (fm_ModTime (blk_Files b ! i))) 0\<rparr>) \<and>
            fst res (fm_Path (blk_Files b ! k)) =
               Some \<lparr>f_data = d', f_mode = createMode (e_umask env) (fm_Mode (blk_Files b ! k)),
                     f_mtime = e_now env\<rparr>)"
proof (intro conjI allI impI)
  have "writeContents fs (blk_Files b) = Inr (concat (map (payloadOf fs) (blk_Files b)))"
    using ok by (intro writeContents_data) (auto dest: recordOK_exists)
  then show "\<exists>footer. writeBlock fs H b num =
            Inr (blockHeader b num @ concat (map (payloadOf fs) (blk_Files b)) @ footer)"
    by (simp add: writeBlock_def Let_def)
next
  let ?ms = "blk_Files b"
  let ?mid = "restoreAll env fs out (take k ?ms)"
  show r: "res = (leftAfterCopy env ?mid (strip (?ms ! k)) d',
                Some (ChecksumMismatch (fm_Path (?ms ! k))))"
    unfolding res by (rule UnpackBlock_corrupted [OF H ok n k d' mem calls])
  have tk: "take (Suc k) ?ms = take k ?ms @ [?ms ! k]" using k by (simp add: take_Suc_conv_app_nth)
  {
    fix p assume p: "p \<notin> fm_Path ` set (take (Suc k) ?ms)"
    then have "p \<noteq> fm_Path (strip (?ms ! k))" and "p \<notin> fm_Path ` set (take k ?ms)"
      using tk by (auto simp: strip_def)
    then show "fst res p = out p"
      using r by (simp add: leftAfterCopy_other restoreAll_other)
  }
  assume fresh: "distinct (map fm_Path (take (Suc k) ?ms)) \<and>
          (\<forall>m\<in>set (take (Suc k) ?ms). out (fm_Path m) = None)"
  then have dk: "distinct (map fm_Path (take k ?ms))"
    and nk: "fm_Path (?ms ! k) \<notin> fm_Path ` set (take k ?ms)"
    and ek: "\<forall>m\<in>set (take k ?ms). out (fm_Path m) = None" and e: "out (fm_Path (?ms ! k)) = None"
    using tk by auto
  have midk: "?mid (fm_Path (?ms ! k)) = None"
    using restoreAll_other [OF nk, of env fs out] e by simp
  show "fst res (fm_Path (?ms ! k)) =
               Some \<lparr>f_data = d', f_mode = createMode (e_umask env) (fm_Mode (?ms ! k)),
                     f_mtime = e_now env\<rparr>"
    using r midk by (simp add: leftAfterCopy_def openDest_def copied_def strip_def)
  fix i assume i: "i < k"
  then have mi: "?ms ! i \<in> set (take k ?ms)" using k by (metis in_set_conv_nth length_take min.absorb2 less_imp_le nth_take)
  then have "fm_Path (?ms ! i) \<noteq> fm_Path (?ms ! k)" using nk by (metis imageI)
  then have "fm_Path (?ms ! i) \<noteq> fm_Path (strip (?ms ! k))" by (simp add: strip_def)
  then have "fst res (fm_Path (?ms ! i)) = ?mid (fm_Path (?ms ! i))"
    using r by (simp add: leftAfterCopy_other)
  also have "\<dots> = Some \<lparr>f_data = payloadOf fs (?ms ! i),
                     f_mode = createMode (e_umask env) (fm_Mode (?ms ! i)),
                     f_mtime = time_Unix (t_sec (fm_ModTime (?ms ! i))) 0\<rparr>"
    by (rule restoreAll_fresh [OF dk ek mi])
  finally show "fst res (fm_Path (?ms ! i)) =
               Some \<lparr>f_data = payloadOf fs (?ms ! i),
                     f_mode = createMode (e_umask env) (fm_Mode (?ms ! i)),
                     f_mtime = time_Unix (t_sec (fm_ModTime (?ms ! i))) 0\<rparr>" .
qed

theorem corrupted_file_extraction_witness:
  "list_all (recordOK smallFs toyDigest) (blk_Files exBlock2) \<and>
   map (payloadOf smallFs) (blk_Files exBlock2) = [[4, 5], [6, 7]] \<and>
   toyDigest [255, 7] \<noteq> toyDigest [6, 7] \<and>
   noFailure quietEnv (blk_Files exBlock2) \<and>
   recordSize * 2 \<le> e_mem quietEnv \<and>
   snd (UnpackBlock quietEnv False toyDigest Map.empty
          (blockHeader exBlock2 2 @ concat [[4, 5], [255, 7]] @ [])) = Some (ChecksumMismatch [99]) \<and>
   fst (UnpackBlock quietEnv False toyDigest Map.empty
          (blockHeader exBlock2 2 @ concat [[4, 5], [255, 7]] @ [])) [98] =
     Some \<lparr>f_data = [4, 5], f_mode = 420, f_mtime = time_Unix 1700000000 0\<rparr> \<and>
   fst (UnpackBlock quietEnv False toyDigest Map.empty
          (blockHeader exBlock2 2 @ concat [[4, 5], [255, 7]] @ [])) [99] =
     Some \<lparr>f_data = [255, 7], f_mode = 420, f_mtime = time_Unix 1800000000 0\<rparr>"
proof -
  let ?res = "UnpackBlock quietEnv False toyDigest Map.empty
          (blockHeader exBlock2 2 @ concat [[4, 5], [255, 7]] @ [])"
  have t: "\<forall>x. length (toyDigest x) = 32" by (simp add: toyDigest_length)
  have ok: "\<forall>m\<in>set (blk_Files exBlock2). recordOK smallFs toyDigest m"
    by (simp add: exBlock2_def recordOK_def smallFs_def mkFile_def)
  have p: "map (payloadOf smallFs) (blk_Files exBlock2) = [[4, 5], [6, 7]]"
    by (simp add: exBlock2_def payloadOf_def smallFs_def mkFile_def)
  have n: "length (blk_Files exBlock2) < 2 ^ 31" and k: "1 < length (blk_Files exBlock2)"
    by (simp_all add: exBlock2_def)
  have l: "length [255, 7 :: byte] = length (payloadOf smallFs (blk_Files exBlock2 ! 1))"
    using arg_cong [OF p, of "\<lambda>xs. length (xs ! 1)"] k by simp
  have d: "toyDigest [255, 7] \<noteq> toyDigest (payloadOf smallFs (blk_Files exBlock2 ! 1))"
    using arg_cong [OF p, of "\<lambda>xs. xs ! 1"] k by (simp add: toyDigest_def)
  have d': "toyDigest [255, 7] \<noteq> toyDigest [6, 7]" by (simp add: toyDigest_def)
  have m1: "recordSize * int (length (blk_Files exBlock2)) \<le> e_mem quietEnv"
    and m2: "\<forall>m\<in>set (blk_Files exBlock2). int (length (fm_Path m)) \<le> e_mem quietEnv"
    and m3: "recordSize * 2 \<le> e_mem quietEnv"
    by (simp_all add: exBlock2_def quietEnv_def recordSize_def)
  have nf: "noFailure quietEnv (blk_Files exBlock2)" "noFailure quietEnv (take 1 (blk_Files exBlock2))"
    "\<not> e_fails quietEnv MkdirAll (fm_Path (blk_Files exBlock2 ! 1))"
    "\<not> e_fails quietEnv OpenFile (fm_Path (blk_Files exBlock2 ! 1))"
    by (simp_all add: noFailure_def quietEnv_def exBlock2_def)
  have r: "?res = UnpackBlock quietEnv False toyDigest Map.empty
      (blockHeader exBlock2 2 @ concat ((map (payloadOf smallFs) (blk_Files exBlock2))[1 := [255, 7]]) @ [])"
    by (simp add: p)
  note th = corrupted_file_extraction [OF t ok n k l d m1 m2 nf(2,3,4) r]
  have e: "snd ?res = Some (ChecksumMismatch [99])"
    using th [THEN conjunct2, THEN conjunct1] by (simp add: exBlock2_def)
  have fr: "distinct (map fm_Path (take (Suc 1) (blk_Files exBlock2))) \<and>
          (\<forall>m\<in>set (take (Suc 1) (blk_Files exBlock2)). Map.empty (fm_Path m) = None)"
    by (simp add: exBlock2_def)
  note th4 = th [THEN conjunct2, THEN conjunct2, THEN conjunct2, rule_format, OF fr]
  have a: "fst ?res [98] = Some \<lparr>f_data = [4, 5], f_mode = 420, f_mtime = time_Unix 1700000000 0\<rparr>"
    using th4 [THEN conjunct1, rule_format, of 0] p
    by (simp add: exBlock2_def quietEnv_def createMode_def time_Unix_def)
  have b: "fst ?res [99] = Some \<lparr>f_data = [255, 7], f_mode = 420, f_mtime = time_Unix 1800000000 0\<rparr>"
    using th4 [THEN conjunct2]
    by (simp add: exBlock2_def quietEnv_def createMode_def)
  show ?thesis using ok p d' nf(1) m3 e a b by (simp add: list_all_iff)
qed

text \<open>
  The block of the files \<open>b\<close> (bytes 4, 5) and \<open>c\<close> (bytes 6, 7): its header is 138
  bytes long, so byte 138 is the first payload byte of \<open>b\<close>.  With that byte alone
  changed, \<open>b\<close> fails and its sibling \<open>c\<close>, whose bytes are intact, is not extracted.
\<close>

theorem corrupted_file_extraction_counterexample:
  "map w_block (fst (packFiles smallFs toyDigest 4 smallInfos)) ! 1 = exBlock2 \<and>
   length (blockHeader exBlock2 2) = 138 \<and>
   take 138 (exBytes2[138 := 255]) = take 138 exBytes2 \<and>
   drop 139 (exBytes2[138 := 255]) = drop 139 exBytes2 \<and>
   snd (UnpackBlock quietEnv False toyDigest Map.empty exBytes2) = None \<and>
   fst (UnpackBlock quietEnv False toyDigest Map.empty exBytes2) [99] =
     Some \<lparr>f_data = [6, 7], f_mode = 420, f_mtime = time_Unix 1700000000 0\<rparr> \<and>
   snd (UnpackBlock quietEnv False toyDigest Map.empty (exBytes2[138 := 255])) =
     Some (ChecksumMismatch [98]) \<and>
   fst (UnpackBlock quietEnv False toyDigest Map.empty (exBytes2[138 := 255])) [98] =
     Some \<lparr>f_data = [255, 5], f_mode = 420, f_mtime = time_Unix 1800000000 0\<rparr> \<and>
   fst (UnpackBlock quietEnv False toyDigest Map.empty (exBytes2[138 := 255])) [99] = None"
proof -
  have "map w_block (fst (packFiles smallFs toyDigest 4 smallInfos)) ! 1 = exBlock2"
    by (simp add: packFiles_def startNewIfFull_def addFileToBlock_def writeBlock_def newBlock_def
        smallInfos_def smallFs_def mkInfo_def mkFile_def Let_def exBlock2_def)
  moreover have "length (blockHeader exBlock2 2) = 138"
    by (simp add: blockHeader_def exBlock2_def writeMetadata_def toyDigest_def)
  moreover have "snd (UnpackBlock quietEnv False toyDigest Map.empty exBytes2) = None" by code_simp
  moreover have "fst (UnpackBlock quietEnv False toyDigest Map.empty exBytes2) [99] =
     Some \<lparr>f_data = [6, 7], f_mode = 420, f_mtime = time_Unix 1700000000 0\<rparr>" by code_simp
  moreover have "snd (UnpackBlock quietEnv False toyDigest Map.empty (exBytes2[138 := 255])) =
     Some (ChecksumMismatch [98])" by code_simp
  moreover have "fst (UnpackBlock quietEnv False toyDigest Map.empty (exBytes2[138 := 255])) [98] =
     Some \<lparr>f_data = [255, 5], f_mode = 420, f_mtime = time_Unix 1800000000 0\<rparr>" by code_simp
  moreover have "fst (UnpackBlock quietEnv False toyDigest Map.empty (exBytes2[138 := 255])) [99] = None"
    by code_simp
  ultimately show ?thesis by simp
qed

section \<open>Decoding a malformed stream\<close>

text \<open>
  Claim C3 says that decoding fails with a malformed-block error on a negative file
  count, on a count whose records cannot fit, and on any read that meets the end of the
  stream, and that no stream makes the program crash.  The code at four such streams,
  with one gigabyte to allocate from: a file count of \<open>-1\<close> panics in \<open>make\<close>, in
  \<open>UnpackBlock\<close> too; a file count of \<open>2^31 - 1\<close> in a stream of 8 bytes aborts with out
  of memory before any record is read; a path length of \<open>-1\<close> panics; and a record whose
  checksum ends after one byte is decoded without an error, the missing bytes being
  zero, because path and checksum are read with a single \<open>Read\<close> whose count is ignored,
  where the other fields are read with \<open>binary.Read\<close>.
\<close>

theorem decode_failing_input:
  "decodeBlock 1073741824 (le32 1 @ le32 (- 1)) = Inl MakeslicePanic \<and>
   snd (UnpackBlock quietEnv False toyDigest Map.empty (le32 1 @ le32 (- 1))) = Some MakeslicePanic \<and>
   decodeBlock 1073741824 (le32 1 @ le32 2147483647) = Inl OutOfMemory \<and>
   decodeBlock 1073741824 (le32 1 @ le32 1 @ le32 (- 1)) = Inl MakeslicePanic \<and>
   length truncatedBlock = 41 \<and>
   decodeBlock 1073741824 truncatedBlock =
     Inr ([\<lparr>fm_Path = [], fm_Size = 0, fm_ModTime = time_Unix 0 0,
            fm_Checksum = 7 # replicate 31 0, fm_Offset = 0, fm_BlockID = 0, fm_Mode = 0\<rparr>], [])"
proof -
  have "decodeBlock 1073741824 (le32 1 @ le32 (- 1)) = Inl MakeslicePanic" by code_simp
  moreover have "snd (UnpackBlock quietEnv False toyDigest Map.empty (le32 1 @ le32 (- 1))) =
      Some MakeslicePanic" by code_simp
  moreover have "decodeBlock 1073741824 (le32 1 @ le32 2147483647) = Inl OutOfMemory" by code_simp
  moreover have "decodeBlock 1073741824 (le32 1 @ le32 1 @ le32 (- 1)) = Inl MakeslicePanic"
    by code_simp
  moreover have "length truncatedBlock = 41" by (simp add: truncatedBlock_def)
  moreover have "decodeBlock 1073741824 truncatedBlock =
     Inr ([\<lparr>fm_Path = [], fm_Size = 0, fm_ModTime = time_Unix 0 0,
            fm_Checksum = 7 # replicate 31 0, fm_Offset = 0, fm_BlockID = 0, fm_Mode = 0\<rparr>], [])"
    by code_simp
  ultimately show ?thesis by blast
qed

section \<open>Round trip\<close>

text \<open>
  Claim C1 says that \<open>Pack\<close> and then \<open>Unpack\<close> restore the bytes, the size, the
  permission bits and the modification time in whole seconds of every file.  The code on
  a tree with one file of mode 0664, under the umask 022: \<open>Pack\<close> and \<open>Unpack\<close> succeed,
  the bytes and the modification time come back, and the mode is 0644, since the file is
  created by \<open>OpenFile\<close> under the umask and never given its mode afterwards.  And where
  the destination holds a longer file already, the bytes beyond the restored ones and the
  old mode stay, since the file is opened without truncation.
\<close>

theorem round_trip_failing_input:
  "snd (Pack sharedFs toyDigest insertionSort 4 [[97]]) = None \<and>
   length sharedBlocks = 1 \<and>
   e_umask quietEnv = 18 \<and>
   snd (Unpack quietEnv True toyDigest Map.empty sharedBlocks) = None \<and>
   fst (Unpack quietEnv True toyDigest Map.empty sharedBlocks) [97] =
     Some \<lparr>f_data = [1, 2, 3], f_mode = 420, f_mtime = time_Unix 1700000000 0\<rparr> \<and>
   snd (Unpack quietEnv True toyDigest staleOut sharedBlocks) = None \<and>
   fst (Unpack quietEnv True toyDigest staleOut sharedBlocks) [97] =
     Some \<lparr>f_data = [1, 2, 3, 9, 9], f_mode = 384, f_mtime = time_Unix 1700000000 0\<rparr>"
proof -
  have "snd (Pack sharedFs toyDigest insertionSort 4 [[97]]) = None" by code_simp
  moreover have "length sharedBlocks = 1" by code_simp
  moreover have "e_umask quietEnv = 18" by (simp add: quietEnv_def)
  moreover have "snd (Unpack quietEnv True toyDigest Map.empty sharedBlocks) = None" by code_simp
  moreover have "fst (Unpack quietEnv True toyDigest Map.empty sharedBlocks) [97] =
     Some \<lparr>f_data = [1, 2, 3], f_mode = 420, f_mtime = time_Unix 1700000000 0\<rparr>" by code_simp
  moreover have "snd (Unpack quietEnv True toyDigest staleOut sharedBlocks) = None" by code_simp
  moreover have "fst (Unpack quietEnv True toyDigest staleOut sharedBlocks) [97] =
     Some \<lparr>f_data = [1, 2, 3, 9, 9], f_mode = 384, f_mtime = time_Unix 1700000000 0\<rparr>" by code_simp
  ultimately show ?thesis by blast
qed

section \<open>Determinism\<close>












end
